theory Spec2Isabelle
  imports Complex_Main
begin

section \<open>Numeric conventions\<close>

text \<open>
  The notebook computes with IEEE doubles; the model computes with reals. What a double
  operation does where the real operation is undefined is written out case by case:
  \<^item> a NumPy operation outside its domain (\<open>np.sqrt\<close> of a negative number,
    \<open>np.arccos\<close> outside \<open>[-1, 1]\<close>) yields NaN and does not raise; NaN is \<open>None\<close>
    in \<open>real option\<close>, and every comparison with NaN is false;
  \<^item> \<open>int(...)\<close> of NaN raises \<open>ValueError\<close>, of an infinity \<open>OverflowError\<close>;
  \<^item> a division of Python numbers by zero raises \<open>ZeroDivisionError\<close>; a division of
    NumPy doubles by zero yields an infinity (or NaN for \<open>0/0\<close>) and does not raise.

  Rounding is not modelled: the reals stand for the doubles. The concrete runs below are
  chosen so that the doubles take the same branches; where a run shows the code departing
  from its description, the quantities that the code truncates or compares are given with
  it.
\<close>

datatype pyerror = ZeroDivisionError | ValueError | OverflowError

definition np_sqrt :: "real \<Rightarrow> real option" where
  "np_sqrt x = (if x < 0 then None else Some (sqrt x))"

definition np_arccos :: "real \<Rightarrow> real option" where
  "np_arccos x = (if x < - 1 \<or> 1 < x then None else Some (arccos x))"

text \<open>\<open>int(x)\<close> on a finite float truncates toward zero.\<close>

definition py_int :: "real \<Rightarrow> int" where
  "py_int x = (if 0 \<le> x then \<lfloor>x\<rfloor> else \<lceil>x\<rceil>)"

text \<open>\<open>a < b\<close> on floats that may be NaN.\<close>

definition np_less :: "real option \<Rightarrow> real option \<Rightarrow> bool" where
  "np_less a b = (case (a, b) of (Some x, Some y) \<Rightarrow> x < y | _ \<Rightarrow> False)"

text \<open>
  \<open>x / y < z\<close> where the quotient is a NumPy double and \<open>z\<close> is finite: for \<open>y = 0\<close>
  the quotient is \<open>+inf\<close>, \<open>-inf\<close> or NaN according to the sign of \<open>x\<close>.
\<close>

definition np_div_less :: "real \<Rightarrow> real \<Rightarrow> real \<Rightarrow> bool" where
  "np_div_less x y z = (if y = 0 then x < 0 else x / y < z)"

text \<open>Python's \<open>sorted([a, b])\<close>, \<open>max(a, b)\<close> and \<open>min(a, b)\<close> with \<open>a\<close> finite in the last two.\<close>

definition sorted2 :: "real option \<Rightarrow> real option \<Rightarrow> real option \<times> real option" where
  "sorted2 a b = (if np_less b a then (b, a) else (a, b))"

definition py_max :: "real \<Rightarrow> real option \<Rightarrow> real" where
  "py_max a b = (case b of Some y \<Rightarrow> if a < y then y else a | None \<Rightarrow> a)"

definition py_min :: "real \<Rightarrow> real option \<Rightarrow> real" where
  "py_min a b = (case b of Some y \<Rightarrow> if y < a then y else a | None \<Rightarrow> a)"

section \<open>Chebyshev polynomials (\<open>scipy.special.eval_chebyt\<close>)\<close>

fun cheb_nat :: "nat \<Rightarrow> real \<Rightarrow> real" where
  "cheb_nat 0 x = 1"
| "cheb_nat (Suc 0) x = x"
| "cheb_nat (Suc (Suc n)) x = 2 * x * cheb_nat (Suc n) x - cheb_nat n x"

text \<open>For an integer degree the library uses the symmetry \<open>T\<^bsub>-n\<^esub> = T\<^bsub>n\<^esub>\<close>.\<close>

definition cheb :: "int \<Rightarrow> real \<Rightarrow> real" where
  "cheb n x = cheb_nat (nat \<bar>n\<bar>) x"

section \<open>Subroutines of the notebook\<close>

subsection \<open>\<open>invert_T2rootp\<close>\<close>

definition invert_T2rootp :: "real \<Rightarrow> int \<Rightarrow> real \<Rightarrow> pyerror + real option" where
  "invert_T2rootp T2 n p_int =
     (let theta_int = Option.bind (np_sqrt p_int) np_arccos in
      if n = 0 then Inl ZeroDivisionError
      else
        let c = pi / (2 * real_of_int n) in
        Inr (case theta_int of
               None \<Rightarrow> None
             | Some th \<Rightarrow>
                 let t = \<lfloor>th / c\<rfloor> in
                 (case np_arccos (2 * T2 - 1) of
                    None \<Rightarrow> None
                  | Some a \<Rightarrow>
                      let theta = (if t mod 2 = 0 then a / (2 * real_of_int n)
                                   else 2 * c - a / (2 * real_of_int n));
                          k = t div 2;
                          theta = theta + pi * real_of_int k / real_of_int n
                      in Some ((cos theta)\<^sup>2))))"

subsection \<open>\<open>find_next_k\<close>\<close>

function find_next_k_loop :: "real \<Rightarrow> real \<Rightarrow> real \<Rightarrow> int \<Rightarrow> int option" where
  "find_next_k_loop theta_lo theta_hi min_k n =
     (if real_of_int n > 2 * min_k + 1 then
        (if py_int (2 * real_of_int n * theta_lo / pi) = py_int (2 * real_of_int n * theta_hi / pi)
         then Some ((n - 1) div 2)
         else find_next_k_loop theta_lo theta_hi min_k (n - 2))
      else None)"
  by pat_completeness auto
termination
  by (relation "measure (\<lambda>(lo, hi, mk, n). nat (n - \<lfloor>2 * mk + 1\<rfloor>))")
     (auto, linarith)

declare find_next_k_loop.simps [simp del]

definition find_next_k :: "real \<Rightarrow> real \<Rightarrow> real \<Rightarrow> pyerror + int option" where
  "find_next_k p_min p_max min_k =
     (case (Option.bind (np_sqrt p_max) np_arccos, Option.bind (np_sqrt p_min) np_arccos) of
        (Some theta_lo, Some theta_hi) \<Rightarrow>
          if theta_hi - theta_lo = 0 then Inl OverflowError
          else
            let n = py_int ((pi / 2) / (theta_hi - theta_lo));
                n = (if n mod 2 = 0 then n + 1 else n)
            in Inr (find_next_k_loop theta_lo theta_hi min_k n)
      | _ \<Rightarrow> Inl ValueError)"

subsection \<open>\<open>max_error_cp\<close>\<close>

text \<open>
  \<open>proportion_confint(count, nobs, method="beta", alpha=...)\<close> belongs to statsmodels, not
  to the repository: it is a parameter \<open>ci\<close> of everything that calls it, applied as
  \<open>ci count nobs alpha\<close> and returning the pair \<open>(lower, upper)\<close>.
\<close>

type_synonym confint = "nat \<Rightarrow> nat \<Rightarrow> real \<Rightarrow> real \<times> real"

definition max_error_cp :: "confint \<Rightarrow> real \<Rightarrow> nat \<Rightarrow> real" where
  "max_error_cp ci delta Nshots =
     foldl (\<lambda>max_error counts.
              case ci counts Nshots delta of (lower, upper) \<Rightarrow>
                if (upper - lower) / 2 > max_error then (upper - lower) / 2 else max_error)
           0 [0 ..< Nshots + 1]"

section \<open>The main algorithm \<open>chebpe\<close>\<close>

text \<open>
  The local variables of the loop. \<open>draws\<close> counts the calls of \<open>np.random.random()\<close>
  made so far: the process-wide generator is a stream \<open>rnd\<close> of numbers in \<open>[0, 1)\<close>, read
  at position \<open>draws\<close>.
\<close>

record state =
  p_min :: real
  p_max :: real
  num_flips :: nat
  num_heads :: nat
  k :: int
  queries :: int
  draws :: nat

record result =
  algorithm :: string
  config :: "real \<times> real \<times> nat"
  epsilon :: real
  p_target_echo :: real
  alpha_echo :: real
  p_estimate :: real
  exact_error :: real
  ci_width :: real
  num_oracle_calls :: int

text \<open>Step 1: the number of confidence intervals, \<open>int(np.ceil(np.log(1/(2*eps))/np.log(r)))\<close>.\<close>

definition iteration_budget :: "real \<Rightarrow> real \<Rightarrow> pyerror + int" where
  "iteration_budget eps r =
     (if eps = 0 then Inl ZeroDivisionError
      else if eps < 0 \<or> r < 0 then Inl ValueError
      else if r = 0 then Inr 0
      else if r = 1 then (if ln (1 / (2 * eps)) = 0 then Inl ValueError else Inl OverflowError)
      else Inr \<lceil>ln (1 / (2 * eps)) / ln r\<rceil>)"

text \<open>Step 4(a): try to find a better polynomial; if found, reset the counts.\<close>

definition select_degree :: "real \<Rightarrow> state \<Rightarrow> pyerror + state" where
  "select_degree r s =
     (case find_next_k (p_min s) (p_max s) (r * real_of_int (k s)) of
        Inl e \<Rightarrow> Inl e
      | Inr None \<Rightarrow> Inr s
      | Inr (Some new_k) \<Rightarrow> Inr (s\<lparr>k := new_k, num_flips := 0, num_heads := 0\<rparr>))"

text \<open>Step 4(b): 'late' or 'early', the number of shots of this iteration.\<close>

definition gap_of :: "state \<Rightarrow> real option" where
  "gap_of s =
     (case (np_sqrt (p_max s), np_sqrt (p_min s)) of
        (Some a, Some b) \<Rightarrow> Some ((cheb (2 * k s + 1) a)\<^sup>2 - (cheb (2 * k s + 1) b)\<^sup>2)
      | _ \<Rightarrow> None)"

definition shots_of :: "real \<Rightarrow> real \<Rightarrow> real \<Rightarrow> nat \<Rightarrow> state \<Rightarrow> nat" where
  "shots_of err_max nu eps Nshots s =
     (case gap_of s of
        None \<Rightarrow> Nshots
      | Some gap \<Rightarrow>
          if np_div_less (err_max * (p_max s - p_min s)) gap (nu * eps) then 1 else Nshots)"

text \<open>Step 4(c): toss the coins, each toss costing \<open>2*k+1\<close> queries.\<close>

fun toss :: "(nat \<Rightarrow> real) \<Rightarrow> real option \<Rightarrow> nat \<Rightarrow> state \<Rightarrow> state" where
  "toss rnd T2 0 s = s"
| "toss rnd T2 (Suc i) s =
     toss rnd T2 i
       (s\<lparr>num_heads := (if np_less (Some (rnd (draws s))) T2 then num_heads s + 1 else num_heads s),
          num_flips := num_flips s + 1,
          queries := queries s + (2 * k s + 1),
          draws := draws s + 1\<rparr>)"

definition T2_of :: "real \<Rightarrow> state \<Rightarrow> real option" where
  "T2_of p_target s = map_option (\<lambda>a. (cheb (2 * k s + 1) a)\<^sup>2) (np_sqrt p_target)"

text \<open>Steps 4(d), 4(e) and 5(d): confidence interval, back-propagation, intersection.\<close>

definition update_interval :: "confint \<Rightarrow> real \<Rightarrow> state \<Rightarrow> pyerror + state" where
  "update_interval ci alpha_T s =
     (case ci (num_heads s) (num_flips s) alpha_T of (T2_min, T2_max) \<Rightarrow>
        (let p_int = (p_min s + p_max s) / 2 in
         (case invert_T2rootp T2_min (2 * k s + 1) p_int of
            Inl e \<Rightarrow> Inl e
          | Inr a \<Rightarrow>
              (case invert_T2rootp T2_max (2 * k s + 1) p_int of
                 Inl e \<Rightarrow> Inl e
               | Inr b \<Rightarrow>
                   (case sorted2 a b of (p_min_star, p_max_star) \<Rightarrow>
                      (let p_min_star = map_option (\<lambda>x. x - 1 / 10 ^ 15) p_min_star;
                           p_max_star = map_option (\<lambda>x. x + 1 / 10 ^ 15) p_max_star
                       in Inr (s\<lparr>p_min := py_max (p_min s) p_min_star,
                                 p_max := py_min (p_max s) p_max_star\<rparr>)))))))"

text \<open>One pass through the body of the \<open>while\<close> loop.\<close>

definition chebpe_iteration ::
  "confint \<Rightarrow> (nat \<Rightarrow> real) \<Rightarrow> real \<Rightarrow> real \<Rightarrow> real \<Rightarrow> real \<Rightarrow> real \<Rightarrow> real \<Rightarrow> nat \<Rightarrow>
   state \<Rightarrow> pyerror + state" where
  "chebpe_iteration ci rnd p_target eps alpha_T err_max nu r Nshots s =
     (case select_degree r s of
        Inl e \<Rightarrow> Inl e
      | Inr s1 \<Rightarrow>
          let Nshots_i = shots_of err_max nu eps Nshots s1;
              s2 = toss rnd (T2_of p_target s1) Nshots_i s1
          in update_interval ci alpha_T s2)"

text \<open>
  The \<open>while\<close> loop, allowed at most \<open>fuel\<close> passes through its body: \<open>None\<close> means that
  the loop condition still holds after \<open>fuel\<close> passes.
\<close>

fun chebpe_loop ::
  "confint \<Rightarrow> (nat \<Rightarrow> real) \<Rightarrow> real \<Rightarrow> real \<Rightarrow> real \<Rightarrow> real \<Rightarrow> real \<Rightarrow> real \<Rightarrow> nat \<Rightarrow>
   nat \<Rightarrow> state \<Rightarrow> (pyerror + state) option" where
  "chebpe_loop ci rnd p_target eps alpha_T err_max nu r Nshots 0 s =
     (if p_max s - p_min s > eps * 2 then None else Some (Inr s))"
| "chebpe_loop ci rnd p_target eps alpha_T err_max nu r Nshots (Suc fuel) s =
     (if p_max s - p_min s > eps * 2 then
        (case chebpe_iteration ci rnd p_target eps alpha_T err_max nu r Nshots s of
           Inl e \<Rightarrow> Some (Inl e)
         | Inr s' \<Rightarrow> chebpe_loop ci rnd p_target eps alpha_T err_max nu r Nshots fuel s')
      else Some (Inr s))"

definition init_state :: state where
  "init_state = \<lparr>p_min = 0, p_max = 1, num_flips = 0, num_heads = 0, k = 0, queries = 0, draws = 0\<rparr>"

definition make_result :: "real \<Rightarrow> real \<Rightarrow> real \<Rightarrow> real \<Rightarrow> real \<Rightarrow> nat \<Rightarrow> state \<Rightarrow> result" where
  "make_result p_target eps alpha nu r Nshots s =
     \<lparr>algorithm = ''ChebPE'',
      config = (nu, r, Nshots),
      epsilon = eps,
      p_target_echo = p_target,
      alpha_echo = alpha,
      p_estimate = (p_min s + p_max s) / 2,
      exact_error = \<bar>p_target - (p_min s + p_max s) / 2\<bar>,
      ci_width = (p_max s - p_min s) / 2,
      num_oracle_calls = queries s\<rparr>"

definition chebpe ::
  "confint \<Rightarrow> (nat \<Rightarrow> real) \<Rightarrow> nat \<Rightarrow> real \<Rightarrow> real \<Rightarrow> real \<Rightarrow> real \<Rightarrow> real \<Rightarrow> nat \<Rightarrow>
   (pyerror + result) option" where
  "chebpe ci rnd fuel p_target eps alpha nu r Nshots =
     (case iteration_budget eps r of
        Inl e \<Rightarrow> Some (Inl e)
      | Inr T \<Rightarrow>
          if T = 0 then Some (Inl ZeroDivisionError)
          else
            let alpha_T = alpha / real_of_int T;
                err_max = max_error_cp ci alpha_T Nshots
            in (case chebpe_loop ci rnd p_target eps alpha_T err_max nu r Nshots fuel init_state of
                  None \<Rightarrow> None
                | Some (Inl e) \<Rightarrow> Some (Inl e)
                | Some (Inr s) \<Rightarrow> Some (Inr (make_result p_target eps alpha nu r Nshots s))))"

text \<open>
  The states at the head of the \<open>while\<close> loop, in order: the state before each pass
  and, last, the state in which the loop stopped (by its condition, by an exception, or
  because \<open>fuel\<close> passes were made).
\<close>

fun chebpe_trace ::
  "confint \<Rightarrow> (nat \<Rightarrow> real) \<Rightarrow> real \<Rightarrow> real \<Rightarrow> real \<Rightarrow> real \<Rightarrow> real \<Rightarrow> real \<Rightarrow> nat \<Rightarrow>
   nat \<Rightarrow> state \<Rightarrow> state list" where
  "chebpe_trace ci rnd p_target eps alpha_T err_max nu r Nshots 0 s = [s]"
| "chebpe_trace ci rnd p_target eps alpha_T err_max nu r Nshots (Suc fuel) s =
     (if p_max s - p_min s > eps * 2 then
        (case chebpe_iteration ci rnd p_target eps alpha_T err_max nu r Nshots s of
           Inl e \<Rightarrow> [s]
         | Inr s' \<Rightarrow> s # chebpe_trace ci rnd p_target eps alpha_T err_max nu r Nshots fuel s')
      else [s])"

text \<open>
  The cost of a run read off its trace: between two consecutive states the pass made
  \<open>draws b - draws a\<close> coin tosses, at the degree \<open>2 * k b + 1\<close> chosen in step 4(a) of
  that pass (\<open>k\<close> changes nowhere else).
\<close>

fun cost_sum :: "state list \<Rightarrow> int" where
  "cost_sum (a # b # ss) = int (draws b - draws a) * (2 * k b + 1) + cost_sum (b # ss)"
| "cost_sum ss = 0"

text \<open>The trace of a whole call of \<open>chebpe\<close>: empty when the call fails before the loop.\<close>

definition chebpe_run_trace ::
  "confint \<Rightarrow> (nat \<Rightarrow> real) \<Rightarrow> nat \<Rightarrow> real \<Rightarrow> real \<Rightarrow> real \<Rightarrow> real \<Rightarrow> real \<Rightarrow> nat \<Rightarrow> state list" where
  "chebpe_run_trace ci rnd fuel p_target eps alpha nu r Nshots =
     (case iteration_budget eps r of
        Inl e \<Rightarrow> []
      | Inr T \<Rightarrow>
          if T = 0 then []
          else chebpe_trace ci rnd p_target eps (alpha / real_of_int T)
                 (max_error_cp ci (alpha / real_of_int T) Nshots) nu r Nshots fuel init_state)"

text \<open>
  The \<open>while\<close> loop as it is, with no bound on the number of passes: \<open>None\<close> means that
  the loop never stops. Whatever \<open>chebpe_loop\<close> returns with some \<open>fuel\<close> is what
  \<open>chebpe_while\<close> returns, and conversely (\<open>chebpe_loop_while\<close>, \<open>chebpe_while_loop\<close>
  below).
\<close>

partial_function (option) chebpe_while ::
  "confint \<Rightarrow> (nat \<Rightarrow> real) \<Rightarrow> real \<Rightarrow> real \<Rightarrow> real \<Rightarrow> real \<Rightarrow> real \<Rightarrow> real \<Rightarrow> nat \<Rightarrow>
   state \<Rightarrow> (pyerror + state) option" where
  "chebpe_while ci rnd p_target eps alpha_T err_max nu r Nshots s =
     (if p_max s - p_min s > eps * 2 then
        (case chebpe_iteration ci rnd p_target eps alpha_T err_max nu r Nshots s of
           Inl e \<Rightarrow> Some (Inl e)
         | Inr s' \<Rightarrow> chebpe_while ci rnd p_target eps alpha_T err_max nu r Nshots s')
      else Some (Inr s))"

definition chebpe_unbounded ::
  "confint \<Rightarrow> (nat \<Rightarrow> real) \<Rightarrow> real \<Rightarrow> real \<Rightarrow> real \<Rightarrow> real \<Rightarrow> real \<Rightarrow> nat \<Rightarrow>
   (pyerror + result) option" where
  "chebpe_unbounded ci rnd p_target eps alpha nu r Nshots =
     (case iteration_budget eps r of
        Inl e \<Rightarrow> Some (Inl e)
      | Inr T \<Rightarrow>
          if T = 0 then Some (Inl ZeroDivisionError)
          else
            let alpha_T = alpha / real_of_int T;
                err_max = max_error_cp ci alpha_T Nshots
            in (case chebpe_while ci rnd p_target eps alpha_T err_max nu r Nshots init_state of
                  None \<Rightarrow> None
                | Some (Inl e) \<Rightarrow> Some (Inl e)
                | Some (Inr s) \<Rightarrow> Some (Inr (make_result p_target eps alpha nu r Nshots s))))"

text \<open>
  What holds at the head of every pass of a run in which every toss shows heads: the
  upper end is still \<open>1\<close>, the lower end is at least \<open>10\<^sup>-\<^sup>1\<^sup>5\<close> below it, and the middle
  of the interval is on the top lobe of the current degree.
\<close>

definition heads_inv :: "state \<Rightarrow> bool" where
  "heads_inv s \<longleftrightarrow>
     p_max s = 1 \<and> 0 \<le> p_min s \<and> p_min s \<le> 1 - 1 / 10 ^ 15 \<and> num_heads s = num_flips s
     \<and> 0 \<le> k s \<and> arccos (sqrt ((p_min s + 1) / 2)) < pi / (2 * real_of_int (2 * k s + 1))"

section \<open>The root finder \<open>brentmethod\<close> (\<open>brent.wl\<close>)\<close>

text \<open>
  The Wolfram Language module works on exact or machine numbers; the model works on reals.
  A division by zero raises nothing there: it prints a message and yields a value that is
  not a number, with which the module carries on. The rules of the kernel that the code
  meets are written out:
  \<^item> \<open>x / 0\<close> is \<open>ComplexInfinity\<close> for \<open>x \<noteq> 0\<close> and \<open>Indeterminate\<close> for \<open>x = 0\<close>;
    a number plus (or minus) \<open>ComplexInfinity\<close> is \<open>ComplexInfinity\<close>;
    \<open>ComplexInfinity + ComplexInfinity\<close>, and every sum with \<open>Indeterminate\<close>, is
    \<open>Indeterminate\<close>;
  \<^item> \<open>Abs[ComplexInfinity]\<close> is \<open>Infinity\<close>, which is \<open>>=\<close> every real; an order
    comparison with \<open>ComplexInfinity\<close> itself, and every comparison with \<open>Indeterminate\<close>,
    stays unevaluated;
  \<^item> \<open>Or\<close> is \<open>True\<close> as soon as one operand is \<open>True\<close>; an \<open>If\<close> whose condition is
    neither \<open>True\<close> nor \<open>False\<close> runs neither branch; \<open>While\<close> stops as soon as its test
    is not \<open>True\<close>.

  \<open>func\<close> is a numeric function, so \<open>func[Indeterminate]\<close> is \<open>Indeterminate\<close>. The local
  \<open>d\<close> has no value before the end of the first pass (\<open>None\<close>) and is read only when
  \<open>mflag\<close> is false, which it is only after a pass. \<open>None\<close> as the result of the loop
  means that its condition still holds after \<open>fuel\<close> passes.
\<close>

datatype trial = Num real | ComplexInfinity | Indeterminate

definition wl_divide :: "real \<Rightarrow> real \<Rightarrow> trial" where
  "wl_divide x y = (if y \<noteq> 0 then Num (x / y) else if x = 0 then Indeterminate else ComplexInfinity)"

fun wl_plus :: "trial \<Rightarrow> trial \<Rightarrow> trial" where
  "wl_plus (Num x) (Num y) = Num (x + y)"
| "wl_plus (Num x) ComplexInfinity = ComplexInfinity"
| "wl_plus ComplexInfinity (Num y) = ComplexInfinity"
| "wl_plus _ _ = Indeterminate"

fun wl_minus :: "trial \<Rightarrow> trial" where
  "wl_minus (Num x) = Num (- x)"
| "wl_minus t = t"

record brent_state =
  br_a :: real
  br_b :: real
  br_c :: real
  br_d :: "real option"
  br_s :: trial
  mflag :: bool

definition brent_interpolate :: "(real \<Rightarrow> real) \<Rightarrow> brent_state \<Rightarrow> trial" where
  "brent_interpolate f st =
     (let a = br_a st; b = br_b st; c = br_c st in
      if f a \<noteq> f c \<and> f b \<noteq> f c then
        (let term1 = wl_divide (a * f b * f c) ((f a - f b) * (f a - f c));
             term2 = wl_divide (b * f a * f c) ((f b - f a) * (f b - f c));
             term3 = wl_divide (c * f a * f b) ((f c - f a) * (f c - f b))
         in wl_plus (wl_plus term1 term2) term3)
      else wl_plus (Num b) (wl_minus (wl_divide (f b * (b - a)) (f b - f a))))"

definition brent_reject :: "real \<Rightarrow> brent_state \<Rightarrow> trial \<Rightarrow> bool option" where
  "brent_reject tolerance st s =
     (let a = br_a st; b = br_b st; c = br_c st;
          small = (mflag st \<and> \<bar>b - c\<bar> < \<bar>tolerance\<bar>) \<or>
                  (\<not> mflag st \<and> (case br_d st of Some d \<Rightarrow> \<bar>c - d\<bar> < \<bar>tolerance\<bar> | None \<Rightarrow> False))
      in case s of
           Num x \<Rightarrow>
             Some ((\<not> ((3 * a + b) / 4 < x \<and> x < b)) \<or>
                   (mflag st \<and> \<bar>x - b\<bar> \<ge> \<bar>b - c\<bar> / 2) \<or>
                   (\<not> mflag st \<and> (case br_d st of Some d \<Rightarrow> \<bar>x - b\<bar> \<ge> \<bar>c - d\<bar> / 2 | None \<Rightarrow> False)) \<or>
                   small)
         | ComplexInfinity \<Rightarrow> if mflag st \<or> br_d st \<noteq> None then Some True else None
         | Indeterminate \<Rightarrow> if small then Some True else None)"

definition brent_swap :: "(real \<Rightarrow> real) \<Rightarrow> brent_state \<Rightarrow> brent_state" where
  "brent_swap f st =
     (if \<bar>f (br_a st)\<bar> < \<bar>f (br_b st)\<bar> then st\<lparr>br_a := br_b st, br_b := br_a st\<rparr> else st)"

definition brent_pass :: "(real \<Rightarrow> real) \<Rightarrow> real \<Rightarrow> brent_state \<Rightarrow> brent_state" where
  "brent_pass f tolerance st =
     (let s0 = brent_interpolate f st;
          (s, m) = (case brent_reject tolerance st s0 of
                      Some True \<Rightarrow> (Num ((br_a st + br_b st) / 2), True)
                    | Some False \<Rightarrow> (s0, False)
                    | None \<Rightarrow> (s0, mflag st));
          st1 = st\<lparr>br_s := s, mflag := m, br_d := Some (br_c st), br_c := br_b st\<rparr>;
          st2 = (case s of
                   Num x \<Rightarrow> if f (br_a st1) * f x < 0 then st1\<lparr>br_b := x\<rparr> else st1\<lparr>br_a := x\<rparr>
                 | _ \<Rightarrow> st1)
      in brent_swap f st2)"

definition brent_continue :: "(real \<Rightarrow> real) \<Rightarrow> real \<Rightarrow> brent_state \<Rightarrow> bool" where
  "brent_continue f tolerance st =
     (f (br_b st) \<noteq> 0 \<and> (case br_s st of Num x \<Rightarrow> f x \<noteq> 0 | _ \<Rightarrow> False)
      \<and> \<bar>br_b st - br_a st\<bar> > tolerance)"

fun brent_loop :: "(real \<Rightarrow> real) \<Rightarrow> real \<Rightarrow> nat \<Rightarrow> brent_state \<Rightarrow> trial option" where
  "brent_loop f tolerance 0 st =
     (if brent_continue f tolerance st then None else Some (br_s st))"
| "brent_loop f tolerance (Suc fuel) st =
     (if brent_continue f tolerance st then brent_loop f tolerance fuel (brent_pass f tolerance st)
      else Some (br_s st))"

definition brentmethod ::
  "nat \<Rightarrow> (real \<Rightarrow> real) \<Rightarrow> real \<Rightarrow> real \<Rightarrow> real \<Rightarrow> real \<Rightarrow> trial option" where
  "brentmethod fuel func targ aa bb ttolerance =
     (let f = (\<lambda>x. func x - targ);
          st0 = brent_swap f \<lparr>br_a = aa, br_b = bb, br_c = aa, br_d = None, br_s = Num bb, mflag = True\<rparr>;
          st = st0\<lparr>br_c := br_a st0\<rparr>
      in brent_loop f ttolerance fuel st)"

text \<open>
  What holds of the state at the head of the loop when the bracket \<open>[lo, hi]\<close> was given:
  both ends and the trial point are in it, and \<open>d\<close> has a value once \<open>mflag\<close> is false.
\<close>

definition brent_inv :: "real \<Rightarrow> real \<Rightarrow> brent_state \<Rightarrow> bool" where
  "brent_inv lo hi st \<longleftrightarrow>
     lo \<le> br_a st \<and> br_a st \<le> hi \<and> lo \<le> br_b st \<and> br_b st \<le> hi
     \<and> (mflag st \<or> br_d st \<noteq> None)
     \<and> (case br_s st of Num x \<Rightarrow> lo \<le> x \<and> x \<le> hi | ComplexInfinity \<Rightarrow> False | Indeterminate \<Rightarrow> True)"

section \<open>The Clopper-Pearson interval of statsmodels\<close>

text \<open>
  \<open>proportion_confint(count, nobs, alpha, method="beta")\<close> returns
  \<open>lower = beta.ppf(alpha/2, count, nobs - count + 1)\<close>, replaced by \<open>0\<close> when
  \<open>count = 0\<close>, and \<open>upper = beta.isf(alpha/2, count + 1, nobs - count)\<close>, replaced by \<open>1\<close>
  when \<open>count = nobs\<close>. The beta quantiles are the solutions of binomial tail equations;
  when all tosses agree they have the closed forms \<open>beta.isf(q, 1, n) = 1 - q^(1/n)\<close> and
  \<open>beta.ppf(q, n, 1) = q^(1/n)\<close>, which is all that the concrete runs below evaluate.
\<close>

definition binom_tail :: "nat \<Rightarrow> nat \<Rightarrow> real \<Rightarrow> real" where
  "binom_tail n c x = (\<Sum>i = c..n. real (n choose i) * x ^ i * (1 - x) ^ (n - i))"

definition clopper_pearson :: confint where
  "clopper_pearson count nobs alpha =
     (if count = 0 then (0, 1 - root nobs (alpha / 2))
      else if count = nobs then (root nobs (alpha / 2), 1)
      else ((THE x. 0 \<le> x \<and> x \<le> 1 \<and> binom_tail nobs count x = alpha / 2),
            (THE x. 0 \<le> x \<and> x \<le> 1 \<and> binom_tail nobs (count + 1) x = 1 - alpha / 2)))"

section \<open>The statistic and its extrema, as the specification words them\<close>

text \<open>The statistic \<open>g\<^sub>n(p) = T\<^sub>n\<^sup>2(\<surd>p)\<close>.\<close>

definition g :: "int \<Rightarrow> real \<Rightarrow> real" where
  "g n p = (cheb n (sqrt p))\<^sup>2"

text \<open>\<open>f\<close> has a local extremum (a local maximum or a local minimum) at \<open>x\<close>.\<close>

definition local_extremum :: "(real \<Rightarrow> real) \<Rightarrow> real \<Rightarrow> bool" where
  "local_extremum f x =
     (\<exists>d>0. (\<forall>y. \<bar>y - x\<bar> < d \<longrightarrow> f y \<le> f x) \<or> (\<forall>y. \<bar>y - x\<bar> < d \<longrightarrow> f x \<le> f y))"

text \<open>The test of step 3 of \<open>find_next_k\<close>, on the angles of the two ends.\<close>

definition same_lobe :: "real \<Rightarrow> real \<Rightarrow> int \<Rightarrow> bool" where
  "same_lobe theta_lo theta_hi n =
     (py_int (2 * real_of_int n * theta_lo / pi) = py_int (2 * real_of_int n * theta_hi / pi))"

section \<open>Locating an angle among the lobes\<close>

text \<open>
  For \<open>0 < p < 1\<close> let \<open>\<psi> = 2 arccos \<surd>p\<close>, so that \<open>cos \<psi> = 2p - 1\<close>. The integer part
  of \<open>2n arccos(\<surd>p)/\<pi> = n\<psi>/\<pi>\<close>, which \<open>find_next_k\<close> compares at the two ends
  of the interval, is the number of sign changes in the sequence \<open>sin(m\<psi>)/sin \<psi>\<close>,
  \<open>m = 1, \<dots>, n\<close>, and this sequence obeys the recurrence
  \<open>u\<^bsub>m+1\<^esub> = 2 cos \<psi> u\<^bsub>m\<^esub> - u\<^bsub>m-1\<^esub>\<close>. \<open>lobe_index n (2p - 1)\<close> counts the sign changes by
  rational arithmetic; it is \<open>None\<close> when a member of the sequence vanishes.
\<close>

fun lobe_walk :: "nat \<Rightarrow> real \<Rightarrow> real \<Rightarrow> real \<Rightarrow> int \<Rightarrow> int option" where
  "lobe_walk 0 w u v c = Some c"
| "lobe_walk (Suc j) w u v c =
     (if v = 0 then None
      else lobe_walk j w v (2 * w * v - u) (if u * v < 0 then c + 1 else c))"

definition lobe_index :: "nat \<Rightarrow> real \<Rightarrow> int option" where
  "lobe_index n w = lobe_walk (n - 1) w 1 (2 * w) 0"

section \<open>Properties\<close>

subsection \<open>Initialisation\<close>

lemma iteration_budget_half: "0 \<le> r \<Longrightarrow> r \<noteq> 1 \<Longrightarrow> iteration_budget (1 / 2) r = Inr 0"
  by (simp add: iteration_budget_def)

text \<open>
  C10. With \<open>eps = 0.5\<close> (and a growth ratio \<open>r \<ge> 0\<close> other than \<open>1\<close>, such as the
  default \<open>2\<close>) the budget \<open>T\<close> is \<open>0\<close> and \<open>alpha / T\<close> raises \<open>ZeroDivisionError\<close>.
  This happens before the loop, so before any coin is tossed: the call has no loop state
  at all, whatever the coin stream and however many passes are allowed, even none. Yet
  the initial interval \<open>[0, 1]\<close> already fails the loop condition
  \<open>p_max - p_min > 2 * eps\<close>.
\<close>

theorem chebpe_eps_half_raises:
  "0 \<le> r \<Longrightarrow> r \<noteq> 1 \<Longrightarrow>
     chebpe ci rnd fuel p_target (1 / 2) alpha nu r Nshots = Some (Inl ZeroDivisionError)
     \<and> chebpe_run_trace ci rnd fuel p_target (1 / 2) alpha nu r Nshots = []
     \<and> \<not> (p_max init_state - p_min init_state > (1 / 2) * 2)"
  by (simp add: chebpe_def chebpe_run_trace_def iteration_budget_half init_state_def)

theorem chebpe_eps_half_raises_witness:
  "(0::real) \<le> 2 \<and> (2::real) \<noteq> 1 \<and>
     chebpe clopper_pearson (\<lambda>i. 0) 0 (3 / 10) (1 / 2) (1 / 20) 8 2 100
       = Some (Inl ZeroDivisionError)"
  using chebpe_eps_half_raises [of 2 clopper_pearson "\<lambda>i. 0" 0 "3 / 10" "1 / 20" 8 100]
  by simp

subsection \<open>One pass of the loop\<close>

lemma toss_queries: "queries (toss rnd T2 i s) = queries s + int i * (2 * k s + 1)"
  by (induction i arbitrary: s) (simp_all add: algebra_simps)

lemma toss_k: "k (toss rnd T2 i s) = k s"
  by (induction i arbitrary: s) simp_all

lemma toss_draws: "draws (toss rnd T2 i s) = draws s + i"
  by (induction i arbitrary: s) simp_all

lemma toss_p_min: "p_min (toss rnd T2 i s) = p_min s"
  by (induction i arbitrary: s) simp_all

lemma toss_p_max: "p_max (toss rnd T2 i s) = p_max s"
  by (induction i arbitrary: s) simp_all

lemma find_next_k_loop_gt:
  "find_next_k_loop lo hi mk n = Some j \<Longrightarrow> odd n \<Longrightarrow> real_of_int j > mk"
proof (induction lo hi mk n rule: find_next_k_loop.induct)
  case (1 lo hi mk n)
  from "1.prems"(1) have gt: "real_of_int n > 2 * mk + 1"
    by (subst (asm) find_next_k_loop.simps) (simp split: if_splits)
  show ?case
  proof (cases "py_int (2 * real_of_int n * lo / pi) = py_int (2 * real_of_int n * hi / pi)")
    case True
    with "1.prems"(1) gt have j: "j = (n - 1) div 2"
      by (subst (asm) find_next_k_loop.simps) simp
    from \<open>odd n\<close> obtain m where "n = 2 * m + 1" by (auto elim: oddE)
    with j gt show ?thesis by simp
  next
    case False
    with "1.prems"(1) gt have rec: "find_next_k_loop lo hi mk (n - 2) = Some j"
      by (subst (asm) find_next_k_loop.simps) simp
    from "1.IH" [OF gt False rec] \<open>odd n\<close> show ?thesis by simp
  qed
qed

lemma find_next_k_gt:
  assumes "find_next_k a b mk = Inr (Some j)" shows "real_of_int j > mk"
proof -
  from assms obtain lo hi where
    r: "find_next_k_loop lo hi mk
          (let n = py_int ((pi / 2) / (hi - lo)) in if n mod 2 = 0 then n + 1 else n) = Some j"
    by (auto simp: find_next_k_def Let_def split: option.splits if_splits)
  have "odd (let n = py_int ((pi / 2) / (hi - lo)) in if n mod 2 = 0 then n + 1 else n)"
    by (simp add: Let_def) presburger
  from find_next_k_loop_gt [OF r this] show ?thesis .
qed

lemma select_degree_interval:
  "select_degree r s = Inr s1 \<Longrightarrow> p_min s1 = p_min s \<and> p_max s1 = p_max s
     \<and> queries s1 = queries s \<and> draws s1 = draws s"
  by (auto simp: select_degree_def split: sum.splits option.splits)

lemma select_degree_k:
  assumes "select_degree r s = Inr s1" "1 \<le> r" "0 \<le> k s"
  shows "k s \<le> k s1"
proof (cases "find_next_k (p_min s) (p_max s) (r * real_of_int (k s))")
  case (Inl e)
  with assms(1) show ?thesis by (simp add: select_degree_def)
next
  case (Inr res)
  show ?thesis
  proof (cases res)
    case None
    with Inr assms(1) show ?thesis by (auto simp: select_degree_def)
  next
    case (Some j)
    with Inr assms(1) have s1: "k s1 = j" by (auto simp: select_degree_def)
    from Inr Some have "real_of_int j > r * real_of_int (k s)" by (simp add: find_next_k_gt)
    moreover have "r * real_of_int (k s) \<ge> 1 * real_of_int (k s)"
      using assms(2,3) by (intro mult_right_mono) simp_all
    ultimately have "real_of_int j > real_of_int (k s)" by simp
    with s1 show ?thesis by simp
  qed
qed

lemma py_max_ge: "a \<le> py_max a b"
  by (simp add: py_max_def split: option.splits)

lemma py_min_le: "py_min a b \<le> a"
  by (simp add: py_min_def split: option.splits)

lemma update_interval_shrinks:
  "update_interval ci alpha_T s = Inr s' \<Longrightarrow>
     p_min s \<le> p_min s' \<and> p_max s' \<le> p_max s \<and> k s' = k s
     \<and> queries s' = queries s \<and> draws s' = draws s"
  by (auto simp: update_interval_def Let_def py_max_ge py_min_le split: prod.splits sum.splits)

lemma chebpe_iteration_step:
  assumes "chebpe_iteration ci rnd p_target eps alpha_T err_max nu r Nshots s = Inr s'"
  shows "p_min s \<le> p_min s'" "p_max s' \<le> p_max s"
    "1 \<le> r \<Longrightarrow> 0 \<le> k s \<Longrightarrow> k s \<le> k s'"
    "queries s' = queries s + int (draws s' - draws s) * (2 * k s' + 1)"
    "draws s \<le> draws s'"
proof -
  from assms obtain s1 where s1: "select_degree r s = Inr s1"
    and up: "update_interval ci alpha_T
               (toss rnd (T2_of p_target s1) (shots_of err_max nu eps Nshots s1) s1) = Inr s'"
    by (auto simp: chebpe_iteration_def Let_def split: sum.splits)
  note a = select_degree_interval [OF s1]
  note b = update_interval_shrinks [OF up]
  from a b show "p_min s \<le> p_min s'" "p_max s' \<le> p_max s" "draws s \<le> draws s'"
    by (simp_all add: toss_p_min toss_p_max toss_draws)
  from a b show "queries s' = queries s + int (draws s' - draws s) * (2 * k s' + 1)"
    by (simp add: toss_queries toss_k toss_draws)
  show "k s \<le> k s'" if "1 \<le> r" "0 \<le> k s"
    using select_degree_k [OF s1 that] b by (simp add: toss_k)
qed

lemma chebpe_trace_Cons:
  "\<exists>ss. chebpe_trace ci rnd p_target eps alpha_T err_max nu r Nshots fuel s = s # ss"
  by (cases fuel) (auto split: sum.splits)

lemma chebpe_trace_bounds:
  assumes "1 \<le> r" "0 \<le> k s"
    "y \<in> set (chebpe_trace ci rnd p_target eps alpha_T err_max nu r Nshots fuel s)"
  shows "p_min s \<le> p_min y \<and> p_max y \<le> p_max s \<and> k s \<le> k y"
  using assms(2,3)
proof (induction fuel arbitrary: s)
  case 0
  then show ?case by simp
next
  case (Suc fuel)
  show ?case
  proof (cases "p_max s - p_min s > eps * 2")
    case False
    with Suc.prems show ?thesis by simp
  next
    case True
    show ?thesis
    proof (cases "chebpe_iteration ci rnd p_target eps alpha_T err_max nu r Nshots s")
      case (Inl e)
      with True Suc.prems show ?thesis by simp
    next
      case (Inr s')
      note st = chebpe_iteration_step [OF Inr]
      from st(3) [OF assms(1) Suc.prems(1)] Suc.prems(1) have k': "0 \<le> k s'" "k s \<le> k s'"
        by simp_all
      from True Inr Suc.prems(2) consider "y = s"
        | "y \<in> set (chebpe_trace ci rnd p_target eps alpha_T err_max nu r Nshots fuel s')"
        by auto
      then show ?thesis
      proof cases
        case 1
        then show ?thesis by simp
      next
        case 2
        from Suc.IH [OF k'(1) 2] st(1,2) k'(2) show ?thesis by linarith
      qed
    qed
  qed
qed

lemma chebpe_trace_sorted:
  assumes "1 \<le> r" "0 \<le> k s"
  shows "sorted_wrt (\<lambda>a b. p_max b - p_min b \<le> p_max a - p_min a \<and> k a \<le> k b)
           (chebpe_trace ci rnd p_target eps alpha_T err_max nu r Nshots fuel s)"
  using assms(2)
proof (induction fuel arbitrary: s)
  case 0
  then show ?case by simp
next
  case (Suc fuel)
  show ?case
  proof (cases "p_max s - p_min s > eps * 2")
    case False
    then show ?thesis by simp
  next
    case True
    show ?thesis
    proof (cases "chebpe_iteration ci rnd p_target eps alpha_T err_max nu r Nshots s")
      case (Inl e)
      with True show ?thesis by simp
    next
      case (Inr s')
      note st = chebpe_iteration_step [OF Inr]
      from st(3) [OF assms(1) Suc.prems] Suc.prems have k': "0 \<le> k s'" "k s \<le> k s'"
        by simp_all
      have "p_max y - p_min y \<le> p_max s - p_min s \<and> k s \<le> k y"
        if "y \<in> set (chebpe_trace ci rnd p_target eps alpha_T err_max nu r Nshots fuel s')" for y
        using chebpe_trace_bounds [OF assms(1) k'(1) that] st(1,2) k'(2) by linarith
      with True Inr Suc.IH [OF k'(1)] show ?thesis by simp
    qed
  qed
qed

text \<open>
  C5. Along the states of a run, in order, the width \<open>p_max - p_min\<close> never grows and
  the degree \<open>k\<close> never falls, for a growth ratio \<open>r \<ge> 1\<close>: every later state of the
  trace is at most as wide and has at least the degree of every earlier one.
\<close>

theorem widths_shrink_degree_grows:
  "1 \<le> r \<Longrightarrow>
     sorted_wrt (\<lambda>a b. p_max b - p_min b \<le> p_max a - p_min a \<and> k a \<le> k b)
       (chebpe_run_trace ci rnd fuel p_target eps alpha nu r Nshots)"
  by (auto simp: chebpe_run_trace_def init_state_def intro!: chebpe_trace_sorted
           split: sum.splits)

lemma chebpe_loop_cost:
  "chebpe_loop ci rnd p_target eps alpha_T err_max nu r Nshots fuel s = Some (Inr s') \<Longrightarrow>
     queries s' = queries s
       + cost_sum (chebpe_trace ci rnd p_target eps alpha_T err_max nu r Nshots fuel s)"
proof (induction fuel arbitrary: s)
  case 0
  then show ?case by (simp split: if_splits)
next
  case (Suc fuel)
  show ?case
  proof (cases "p_max s - p_min s > eps * 2")
    case False
    with Suc.prems show ?thesis by simp
  next
    case True
    show ?thesis
    proof (cases "chebpe_iteration ci rnd p_target eps alpha_T err_max nu r Nshots s")
      case (Inl e)
      with True Suc.prems show ?thesis by simp
    next
      case (Inr s1)
      with True Suc.prems
      have loop: "chebpe_loop ci rnd p_target eps alpha_T err_max nu r Nshots fuel s1 = Some (Inr s')"
        by simp
      obtain ss where ss: "chebpe_trace ci rnd p_target eps alpha_T err_max nu r Nshots fuel s1 = s1 # ss"
        using chebpe_trace_Cons by blast
      from chebpe_iteration_step(4) [OF Inr] Suc.IH [OF loop] True Inr ss
      show ?thesis by simp
    qed
  qed
qed

text \<open>
  C6. When a call of \<open>chebpe\<close> returns, the reported \<open>num_oracle_calls\<close> is the sum
  over the passes of the loop of the number of coin tosses made in the pass times the
  degree \<open>n = 2k + 1\<close> in force during the pass.
\<close>

theorem oracle_calls_are_shots_times_degree:
  "chebpe ci rnd fuel p_target eps alpha nu r Nshots = Some (Inr res) \<Longrightarrow>
     num_oracle_calls res = cost_sum (chebpe_run_trace ci rnd fuel p_target eps alpha nu r Nshots)"
  by (auto simp: chebpe_def chebpe_run_trace_def Let_def make_result_def init_state_def
           dest!: chebpe_loop_cost split: sum.splits if_splits option.splits)

subsection \<open>The inverter has no domain guard\<close>

lemma arccos_sqrt_some:
  assumes "0 \<le> p" "p \<le> 1"
  shows "Option.bind (np_sqrt p) np_arccos = Some (arccos (sqrt p))"
proof -
  have "0 \<le> sqrt p" "sqrt p \<le> 1" using assms by simp_all
  then have "\<not> (sqrt p < - 1 \<or> 1 < sqrt p)" by linarith
  with assms show ?thesis by (simp add: np_sqrt_def np_arccos_def)
qed

text \<open>
  C7, as stated, fails: nothing clamps the statistic. For \<open>T2 = 1 + 2\<^sup>-\<^sup>5\<^sup>2\<close>, the double
  next above \<open>1\<close>, the argument \<open>2 * T2 - 1\<close> of \<open>np.arccos\<close> exceeds \<open>1\<close> and the result
  of \<open>invert_T2rootp\<close> is NaN.
\<close>

theorem invert_T2rootp_above_one_is_nan:
  "invert_T2rootp (1 + 1 / 2 ^ 52) 1 (1 / 2) = Inr None"
  by (simp add: invert_T2rootp_def np_sqrt_def np_arccos_def Let_def)

text \<open>
  C7, amended. \<open>invert_T2rootp\<close> has no clamp. For a degree \<open>n \<noteq> 0\<close> and a hint in
  \<open>[0, 1]\<close> it raises nothing, whatever the statistic; for a statistic in \<open>[0, 1]\<close> it
  returns a number in \<open>[0, 1]\<close>; for a statistic above \<open>1\<close>, or below \<open>0\<close> by at least
  \<open>2\<^sup>-\<^sup>5\<^sup>3\<close>, it returns NaN to the caller, silently. (For a negative statistic closer
  to \<open>0\<close> the double \<open>2 * T2 - 1\<close> can round to \<open>-1\<close>; nothing is said about those.)
\<close>

theorem invert_T2rootp_unclamped:
  "n \<noteq> 0 \<Longrightarrow> 0 \<le> p_int \<Longrightarrow> p_int \<le> 1 \<Longrightarrow>
     (\<exists>v. invert_T2rootp T2 n p_int = Inr v)
     \<and> (0 \<le> T2 \<and> T2 \<le> 1 \<longrightarrow>
          (\<exists>p. invert_T2rootp T2 n p_int = Inr (Some p) \<and> 0 \<le> p \<and> p \<le> 1))
     \<and> (1 < T2 \<or> T2 \<le> - (1 / 2 ^ 53) \<longrightarrow> invert_T2rootp T2 n p_int = Inr None)"
  by (auto simp: invert_T2rootp_def arccos_sqrt_some np_arccos_def Let_def abs_square_le_1
      intro: order_trans [OF _ cos_le_one])

theorem invert_T2rootp_unclamped_witness:
  "(3::int) \<noteq> 0 \<and> (0::real) \<le> 1 / 2 \<and> (1 / 2 :: real) \<le> 1
     \<and> (\<exists>v. invert_T2rootp (1 / 2) 3 (1 / 2) = Inr v)
     \<and> (\<exists>p. invert_T2rootp (1 / 2) 3 (1 / 2) = Inr (Some p) \<and> 0 \<le> p \<and> p \<le> 1)
     \<and> invert_T2rootp (- (1 / 2 ^ 53)) 3 (1 / 2) = Inr None"
  using invert_T2rootp_unclamped [of 3 "1 / 2" "1 / 2"]
        invert_T2rootp_unclamped [of 3 "1 / 2" "- (1 / 2 ^ 53)"]
  by simp

subsection \<open>The root finder has no bracket check\<close>

lemmas brent_defs = brentmethod_def brent_swap_def brent_continue_def brent_pass_def
        brent_interpolate_def brent_reject_def wl_divide_def Let_def

text \<open>
  C8, as stated, fails: for \<open>f(x) = x + 2\<close> on the bracket \<open>[0, 1]\<close>, where \<open>f\<close> is positive
  at both ends, with tolerance \<open>1/2\<close>, \<open>brentmethod\<close> makes one pass (a rejected secant
  step, then a bisection) and returns \<open>1/2\<close>.
\<close>

theorem brentmethod_same_sign_returns:
  "(0 + 2) * (1 + 2) > (0::real) \<and>
   brentmethod 1 (\<lambda>x. x + 2) 0 0 1 (1 / 2) = Some (Num (1 / 2))"
  by (simp add: brent_defs)

text \<open>
  A secant step that divides by zero: for \<open>f(x) = x\<^sup>2\<close> on \<open>[-1, 1]\<close> the first trial point
  is \<open>ComplexInfinity\<close>, the step is rejected, and the bisection finds the root \<open>0\<close>.
\<close>

lemma brentmethod_square: "brentmethod 1 (\<lambda>x. x\<^sup>2) 0 (- 1) 1 (1 / 100) = Some (Num 0)"
  by (simp add: brent_defs)

lemma brent_swap_fields:
  "br_s (brent_swap f st) = br_s st" "mflag (brent_swap f st) = mflag st"
  "br_d (brent_swap f st) = br_d st" "br_c (brent_swap f st) = br_c st"
  "\<bar>br_b (brent_swap f st) - br_a (brent_swap f st)\<bar> = \<bar>br_b st - br_a st\<bar>"
  by (simp_all add: brent_swap_def abs_minus_commute)

lemma brent_swap_inv:
  "brent_inv lo hi st \<Longrightarrow> brent_inv lo hi (brent_swap f st)"
  by (simp add: brent_inv_def brent_swap_def)

text \<open>
  The bracket is never left, whatever \<open>f\<close> is, and \<open>ComplexInfinity\<close> never survives a pass:
  the step that follows it is always a bisection.
\<close>

lemma brent_pass_inv:
  assumes inv: "brent_inv lo hi st"
  shows "brent_inv lo hi (brent_pass f tolerance st)"
proof -
  define a b where "a = br_a st" and "b = br_b st"
  define s0 where "s0 = brent_interpolate f st"
  have ab: "lo \<le> a" "a \<le> hi" "lo \<le> b" "b \<le> hi" and md: "mflag st \<or> br_d st \<noteq> None"
    using inv by (simp_all add: brent_inv_def a_def b_def)
  have moved: "brent_inv lo hi (brent_pass f tolerance st)"
    if p: "brent_pass f tolerance st =
        brent_swap f (let st1 = st\<lparr>br_s := Num x, mflag := m, br_d := Some (br_c st), br_c := b\<rparr>
                      in if f a * f x < 0 then st1\<lparr>br_b := x\<rparr> else st1\<lparr>br_a := x\<rparr>)"
      and x: "lo \<le> x" "x \<le> hi" for x m
    unfolding p using ab x by (intro brent_swap_inv) (simp add: brent_inv_def Let_def a_def b_def)
  consider (bisect) "brent_reject tolerance st s0 = Some True"
    | (accept) "brent_reject tolerance st s0 = Some False"
    | (stuck) "brent_reject tolerance st s0 = None"
    by (cases "brent_reject tolerance st s0") auto
  then show ?thesis
  proof cases
    case bisect
    have x: "lo \<le> (a + b) / 2" "(a + b) / 2 \<le> hi" using ab by simp_all
    show ?thesis
      by (rule moved [OF _ x, of True])
         (simp add: brent_pass_def Let_def s0_def [symmetric] bisect a_def b_def)
  next
    case accept
    then obtain x where s0: "s0 = Num x" and in_ab: "(3 * a + b) / 4 < x" "x < b"
      by (cases s0) (auto simp: brent_reject_def Let_def a_def b_def split: if_splits)
    from in_ab(1) have lower: "3 * a + b < 4 * x" by (simp add: pos_divide_less_eq)
    with in_ab(2) have "a < b" by linarith
    with lower have ax: "a < x" by linarith
    have x: "lo \<le> x" "x \<le> hi" using ab ax in_ab by linarith+
    show ?thesis
      by (rule moved [OF _ x, of False])
         (simp add: brent_pass_def Let_def s0_def [symmetric] s0 accept [unfolded s0] a_def b_def)
  next
    case stuck
    then have s0: "s0 = Indeterminate"
      using md by (cases s0) (auto simp: brent_reject_def Let_def split: if_splits)
    have p: "brent_pass f tolerance st =
        brent_swap f (st\<lparr>br_s := Indeterminate, mflag := mflag st, br_d := Some (br_c st), br_c := b\<rparr>)"
      by (simp add: brent_pass_def Let_def s0_def [symmetric] s0 stuck [unfolded s0] b_def)
    show ?thesis
      unfolding p using ab by (intro brent_swap_inv) (simp add: brent_inv_def a_def b_def)
  qed
qed

lemma brent_loop_in_bracket:
  "brent_inv lo hi st \<Longrightarrow> brent_loop f tolerance n st = Some r \<Longrightarrow>
     r = Indeterminate \<or> (\<exists>x. r = Num x \<and> lo \<le> x \<and> x \<le> hi)"
proof (induction n arbitrary: st)
  case 0
  then show ?case by (cases "br_s st") (auto simp: brent_inv_def split: if_splits)
next
  case (Suc n)
  show ?case
  proof (cases "brent_continue f tolerance st")
    case False
    with Suc.prems show ?thesis by (cases "br_s st") (auto simp: brent_inv_def)
  next
    case True
    with Suc.prems(2) have "brent_loop f tolerance n (brent_pass f tolerance st) = Some r" by simp
    from Suc.IH [OF brent_pass_inv [OF Suc.prems(1)] this] show ?thesis .
  qed
qed

lemma brentmethod_in_bracket:
  assumes "brentmethod fuel func targ aa bb ttolerance = Some r"
  shows "r = Indeterminate \<or> (\<exists>s. r = Num s \<and> min aa bb \<le> s \<and> s \<le> max aa bb)"
proof -
  define f where "f = (\<lambda>x. func x - targ)"
  define st0 where
    "st0 = brent_swap f \<lparr>br_a = aa, br_b = bb, br_c = aa, br_d = None, br_s = Num bb, mflag = True\<rparr>"
  define st where "st = st0\<lparr>br_c := br_a st0\<rparr>"
  have run: "brentmethod fuel func targ aa bb ttolerance = brent_loop f ttolerance fuel st"
    by (simp add: brentmethod_def Let_def f_def st0_def st_def)
  have inv: "brent_inv (min aa bb) (max aa bb) st"
    by (simp add: st_def st0_def brent_inv_def brent_swap_def)
  from brent_loop_in_bracket [OF inv] assms show ?thesis unfolding run by blast
qed

lemma brent_pass_same_sign:
  assumes sign: "\<forall>x\<in>{lo..hi}. \<forall>y\<in>{lo..hi}. 0 < f x * f y"
    and inv: "brent_inv lo hi st"
  shows "br_s (brent_pass f tolerance st) = Indeterminate
       \<or> (brent_inv lo hi (brent_pass f tolerance st)
          \<and> \<bar>br_b (brent_pass f tolerance st) - br_a (brent_pass f tolerance st)\<bar>
              \<le> 3 / 4 * \<bar>br_b st - br_a st\<bar>)"
proof -
  define a b where "a = br_a st" and "b = br_b st"
  define s0 where "s0 = brent_interpolate f st"
  have ab: "lo \<le> a" "a \<le> hi" "lo \<le> b" "b \<le> hi" and md: "mflag st \<or> br_d st \<noteq> None"
    using inv by (simp_all add: brent_inv_def a_def b_def)
  have keep: "\<not> f a * f x < 0" if "lo \<le> x" "x \<le> hi" for x
    using sign ab that by (simp add: not_less less_imp_le)
  consider (bisect) "brent_reject tolerance st s0 = Some True"
    | (accept) "brent_reject tolerance st s0 = Some False"
    | (stuck) "brent_reject tolerance st s0 = None"
    by (cases "brent_reject tolerance st s0") auto
  then show ?thesis
  proof cases
    case bisect
    define x where "x = (a + b) / 2"
    have x: "lo \<le> x" "x \<le> hi" using ab by (simp_all add: x_def)
    define st2 where "st2 = st\<lparr>br_s := Num x, mflag := True, br_d := Some (br_c st), br_c := b, br_a := x\<rparr>"
    have p: "brent_pass f tolerance st = brent_swap f st2"
      using bisect keep [OF x]
      by (simp add: brent_pass_def Let_def s0_def [symmetric] a_def [symmetric] b_def [symmetric]
            x_def [symmetric] st2_def)
    have "brent_inv lo hi st2" using ab x by (simp add: brent_inv_def st2_def b_def)
    moreover have "\<bar>br_b st2 - br_a st2\<bar> \<le> 3 / 4 * \<bar>b - a\<bar>"
      by (simp add: st2_def x_def b_def [symmetric] field_simps abs_if)
    ultimately show ?thesis
      unfolding p by (simp add: brent_swap_inv brent_swap_fields a_def b_def)
  next
    case accept
    then obtain x where s0: "s0 = Num x" and in_ab: "(3 * a + b) / 4 < x" "x < b"
      by (cases s0) (auto simp: brent_reject_def Let_def a_def b_def split: if_splits)
    from in_ab(1) have lower: "3 * a + b < 4 * x" by (simp add: pos_divide_less_eq)
    with in_ab(2) have "a < b" by linarith
    with lower have ax: "a < x" by linarith
    have x: "lo \<le> x" "x \<le> hi" using ab ax in_ab by linarith+
    define st2 where "st2 = st\<lparr>br_s := Num x, mflag := False, br_d := Some (br_c st), br_c := b, br_a := x\<rparr>"
    have p: "brent_pass f tolerance st = brent_swap f st2"
      using accept keep [OF x]
      by (simp add: brent_pass_def Let_def s0_def [symmetric] a_def [symmetric] b_def [symmetric]
            s0 st2_def)
    have "brent_inv lo hi st2" using ab x by (simp add: brent_inv_def st2_def b_def)
    moreover have "\<bar>br_b st2 - br_a st2\<bar> \<le> 3 / 4 * \<bar>b - a\<bar>"
      using lower in_ab(2) \<open>a < b\<close> by (simp add: st2_def b_def [symmetric] abs_if)
    ultimately show ?thesis
      unfolding p by (simp add: brent_swap_inv brent_swap_fields a_def b_def)
  next
    case stuck
    then have s0: "s0 = Indeterminate"
      using md by (cases s0) (auto simp: brent_reject_def Let_def split: if_splits)
    have "br_s (brent_pass f tolerance st) = Indeterminate"
      using stuck
      by (simp add: brent_pass_def Let_def s0_def [symmetric] s0 brent_swap_fields)
    then show ?thesis ..
  qed
qed

lemma brent_loop_stopped:
  "\<not> brent_continue f tolerance st \<Longrightarrow> brent_loop f tolerance n st = Some (br_s st)"
  by (cases n) simp_all

lemma brent_loop_same_sign:
  assumes sign: "\<forall>x\<in>{lo..hi}. \<forall>y\<in>{lo..hi}. 0 < f x * f y"
  shows "brent_inv lo hi st \<Longrightarrow> \<bar>br_b st - br_a st\<bar> * (3 / 4) ^ n \<le> tolerance \<Longrightarrow>
     brent_loop f tolerance n st = Some Indeterminate
     \<or> (\<exists>x. brent_loop f tolerance n st = Some (Num x) \<and> lo \<le> x \<and> x \<le> hi)"
proof (induction n arbitrary: st)
  case 0
  then have "\<not> brent_continue f tolerance st" by (simp add: brent_continue_def)
  then have "brent_loop f tolerance 0 st = Some (br_s st)" by simp
  with "0.prems"(1) show ?case by (cases "br_s st") (simp_all add: brent_inv_def)
next
  case (Suc n)
  show ?case
  proof (cases "brent_continue f tolerance st")
    case False
    then have "brent_loop f tolerance (Suc n) st = Some (br_s st)" by simp
    with Suc.prems(1) show ?thesis by (cases "br_s st") (simp_all add: brent_inv_def)
  next
    case True
    define st' where "st' = brent_pass f tolerance st"
    have step: "brent_loop f tolerance (Suc n) st = brent_loop f tolerance n st'"
      using True by (simp add: st'_def)
    from brent_pass_same_sign [OF sign Suc.prems(1), of tolerance, folded st'_def]
    show ?thesis
    proof
      assume ind: "br_s st' = Indeterminate"
      then have "\<not> brent_continue f tolerance st'" by (simp add: brent_continue_def)
      from brent_loop_stopped [OF this, of n] ind show ?thesis unfolding step by simp
    next
      assume "brent_inv lo hi st' \<and> \<bar>br_b st' - br_a st'\<bar> \<le> 3 / 4 * \<bar>br_b st - br_a st\<bar>"
      then have inv: "brent_inv lo hi st'"
        and w: "\<bar>br_b st' - br_a st'\<bar> \<le> 3 / 4 * \<bar>br_b st - br_a st\<bar>" by simp_all
      have "\<bar>br_b st' - br_a st'\<bar> * (3 / 4) ^ n \<le> 3 / 4 * \<bar>br_b st - br_a st\<bar> * (3 / 4) ^ n"
        using w by (intro mult_right_mono) simp_all
      also have "\<dots> = \<bar>br_b st - br_a st\<bar> * (3 / 4) ^ Suc n" by simp
      finally have "\<bar>br_b st' - br_a st'\<bar> * (3 / 4) ^ n \<le> tolerance" using Suc.prems(2) by linarith
      from Suc.IH [OF inv this] show ?thesis unfolding step .
    qed
  qed
qed

text \<open>
  C8, amended. \<open>brentmethod\<close> never looks at the signs of \<open>f\<close> at the ends of the bracket
  and has no failure for them. When \<open>f - targ\<close> has one strict sign on the whole bracket,
  so that there is no root to find, every pass moves the end \<open>a\<close> to the trial point and
  leaves a bracket at most \<open>3/4\<close> as wide; once \<open>|bb - aa| * (3/4)\<^sup>N\<close> is within the
  tolerance, the module has returned after at most \<open>N\<close> passes, and what it returns is
  its last trial point: a point of the bracket that is not a root, or \<open>Indeterminate\<close>
  when an inverse quadratic step met \<open>f(a) = f(b)\<close>.
\<close>

theorem brentmethod_no_bracket_check:
  assumes sign: "\<forall>x\<in>{min aa bb..max aa bb}. \<forall>y\<in>{min aa bb..max aa bb}.
                   0 < (func x - targ) * (func y - targ)"
    and fuel: "\<bar>bb - aa\<bar> * (3 / 4) ^ fuel \<le> ttolerance"
  shows "brentmethod fuel func targ aa bb ttolerance = Some Indeterminate
       \<or> (\<exists>s. brentmethod fuel func targ aa bb ttolerance = Some (Num s)
              \<and> min aa bb \<le> s \<and> s \<le> max aa bb \<and> func s \<noteq> targ)"
proof -
  define f where "f = (\<lambda>x. func x - targ)"
  define st0 where
    "st0 = brent_swap f \<lparr>br_a = aa, br_b = bb, br_c = aa, br_d = None, br_s = Num bb, mflag = True\<rparr>"
  define st where "st = st0\<lparr>br_c := br_a st0\<rparr>"
  have run: "brentmethod fuel func targ aa bb ttolerance = brent_loop f ttolerance fuel st"
    by (simp add: brentmethod_def Let_def f_def st0_def st_def)
  have inv: "brent_inv (min aa bb) (max aa bb) st"
    by (simp add: st_def st0_def brent_inv_def brent_swap_def)
  have w: "\<bar>br_b st - br_a st\<bar> = \<bar>bb - aa\<bar>"
    by (simp add: st_def st0_def brent_swap_def abs_minus_commute)
  have sign': "\<forall>x\<in>{min aa bb..max aa bb}. \<forall>y\<in>{min aa bb..max aa bb}. 0 < f x * f y"
    using sign by (simp add: f_def)
  have nz: "func x \<noteq> targ" if "min aa bb \<le> x" "x \<le> max aa bb" for x
    using sign that by (auto dest!: bspec [of _ _ x])
  from brent_loop_same_sign [OF sign' inv, of fuel ttolerance] fuel w nz
  show ?thesis unfolding run by auto
qed

theorem brentmethod_no_bracket_check_witness:
  "(0::real) < ((- 1)\<^sup>2 + 1 - 0) * (1\<^sup>2 + 1 - 0)
   \<and> \<bar>1 - (- 1)\<bar> * (3 / 4) ^ 5 \<le> (1 / 2 :: real)
   \<and> brentmethod 5 (\<lambda>x. x\<^sup>2 + 1) 0 (- 1) 1 (1 / 2) = Some (Num (1 / 2))"
proof -
  have sign: "\<forall>x\<in>{min (- 1) 1..max (- 1) (1::real)}. \<forall>y\<in>{min (- 1) 1..max (- 1) (1::real)}.
      0 < (x\<^sup>2 + 1 - 0) * (y\<^sup>2 + 1 - 0)"
    by (intro ballI mult_pos_pos) (simp_all add: add_nonneg_pos)
  have fuel: "\<bar>1 - (- 1)\<bar> * (3 / 4) ^ 5 \<le> (1 / 2 :: real)" by (simp add: eval_nat_numeral)
  have "brentmethod 5 (\<lambda>x. x\<^sup>2 + 1) 0 (- 1) 1 (1 / 2) = Some (Num (1 / 2))"
    using brentmethod_no_bracket_check [of "- 1" 1 "\<lambda>x. x\<^sup>2 + 1" 0 5 "1 / 2", OF sign fuel]
    by (simp add: brent_defs eval_nat_numeral)
  with fuel show ?thesis by simp
qed

subsection \<open>Inverting the statistic\<close>

lemma cheb_nat_cos: "cheb_nat n (cos x) = cos (real n * x)"
proof (induction n "cos x" rule: cheb_nat.induct)
  case 1
  show ?case by simp
next
  case 2
  show ?case by simp
next
  case (3 n)
  have a: "cos (real (Suc (Suc n)) * x) = cos (real (Suc n) * x) * cos x - sin (real (Suc n) * x) * sin x"
    using cos_add [of "real (Suc n) * x" x] by (simp add: algebra_simps)
  have b: "cos (real n * x) = cos (real (Suc n) * x) * cos x + sin (real (Suc n) * x) * sin x"
    using cos_diff [of "real (Suc n) * x" x] by (simp add: algebra_simps)
  from 3 a b show ?case by simp
qed

lemma cheb_cos: "0 \<le> n \<Longrightarrow> cheb n (cos x) = cos (real_of_int n * x)"
  by (simp add: cheb_def cheb_nat_cos)

lemma arccos_cos_lobe:
  fixes x :: real and t :: int
  assumes "real_of_int t * pi \<le> x" "x < (real_of_int t + 1) * pi"
  shows "arccos (cos x) = (if even t then x - real_of_int t * pi else (real_of_int t + 1) * pi - x)"
proof -
  define phi where "phi = x - real_of_int t * pi"
  have phi: "0 \<le> phi" "phi < pi" using assms by (simp_all add: phi_def algebra_simps)
  have "cos x = cos (phi + pi * real_of_int t)" by (simp add: phi_def algebra_simps)
  also have "\<dots> = cos phi * (if even t then 1 else - 1)"
    by (simp add: cos_add)
  finally have cx: "cos x = cos phi * (if even t then 1 else - 1)" .
  show ?thesis
  proof (cases "even t")
    case True
    with cx have "arccos (cos x) = arccos (cos phi)" by simp
    also have "\<dots> = phi" using phi by (simp add: arccos_cos)
    finally show ?thesis using True by (simp add: phi_def)
  next
    case False
    with cx have "arccos (cos x) = arccos (- cos phi)" by simp
    also have "\<dots> = pi - arccos (cos phi)" by (rule arccos_minus) simp_all
    also have "\<dots> = pi - phi" using phi by (simp add: arccos_cos)
    finally show ?thesis using False by (simp add: phi_def algebra_simps)
  qed
qed

lemma invert_at_angle:
  fixes n :: int and th :: real
  assumes n: "0 < n" and th: "0 \<le> th" "th \<le> pi / 2"
    and hint: "0 \<le> p_int" "p_int \<le> 1"
    and lobe: "\<lfloor>arccos (sqrt p_int) / (pi / (2 * real_of_int n))\<rfloor> = \<lfloor>th / (pi / (2 * real_of_int n))\<rfloor>"
  shows "invert_T2rootp ((cos (real_of_int n * th))\<^sup>2) n p_int = Inr (Some ((cos th)\<^sup>2))"
proof -
  define c where "c = pi / (2 * real_of_int n)"
  define t where "t = \<lfloor>th / c\<rfloor>"
  define x where "x = 2 * real_of_int n * th"
  have npos: "0 < real_of_int n" using n by simp
  have cpos: "0 < c" using npos by (simp add: c_def)
  have xc: "th / c = x / pi" using npos by (simp add: c_def x_def field_simps)
  have t1: "real_of_int t \<le> x / pi" and t2: "x / pi < real_of_int t + 1"
    unfolding t_def xc by linarith+
  have lo: "real_of_int t * pi \<le> x" using t1 by (simp add: field_simps)
  have hi: "x < (real_of_int t + 1) * pi" using t2 by (simp add: field_simps)
  have T2: "2 * (cos (real_of_int n * th))\<^sup>2 - 1 = cos x"
    using cos_double_cos [of "real_of_int n * th"] by (simp add: x_def algebra_simps)
  have arc: "np_arccos (cos x) = Some (arccos (cos x))"
    using cos_ge_minus_one [of x] cos_le_one [of x] by (simp add: np_arccos_def not_less)
  have a: "arccos (cos x) = (if even t then x - real_of_int t * pi else (real_of_int t + 1) * pi - x)"
    by (rule arccos_cos_lobe [OF lo hi])
  have th_eq: "th = x / (2 * real_of_int n)" using npos by (simp add: x_def)
  have theta: "(if t mod 2 = 0 then arccos (cos x) / (2 * real_of_int n)
                else 2 * c - arccos (cos x) / (2 * real_of_int n))
               + pi * real_of_int (t div 2) / real_of_int n = th"
  proof (cases "even t")
    case True
    then obtain m where m: "t = 2 * m" by (auto elim: evenE)
    from True a have "arccos (cos x) = x - real_of_int t * pi" by simp
    with m npos show ?thesis by (simp add: th_eq field_simps)
  next
    case False
    then obtain m where m: "t = 2 * m + 1" by (auto elim: oddE)
    from False a have "arccos (cos x) = (real_of_int t + 1) * pi - x" by simp
    with m npos show ?thesis by (simp add: th_eq c_def field_simps)
  qed
  have tt: "\<lfloor>arccos (sqrt p_int) / c\<rfloor> = t"
    using lobe by (simp add: c_def t_def)
  have "invert_T2rootp ((cos (real_of_int n * th))\<^sup>2) n p_int =
          Inr (Some ((cos ((if t mod 2 = 0 then arccos (cos x) / (2 * real_of_int n)
                else 2 * c - arccos (cos x) / (2 * real_of_int n))
               + pi * real_of_int (t div 2) / real_of_int n))\<^sup>2))"
    using n
    by (simp add: invert_T2rootp_def arccos_sqrt_some [OF hint] Let_def T2 arc tt
          flip: c_def)
  with theta show ?thesis by simp
qed

lemma arccos_sqrt_facts:
  assumes "0 \<le> p" "p \<le> 1"
  shows "0 \<le> arccos (sqrt p)" "arccos (sqrt p) \<le> pi / 2"
    "cos (arccos (sqrt p)) = sqrt p" "(cos (arccos (sqrt p)))\<^sup>2 = p"
proof -
  have s: "0 \<le> sqrt p" "sqrt p \<le> 1" using assms by simp_all
  then have m: "- 1 \<le> sqrt p" by linarith
  show "0 \<le> arccos (sqrt p)" by (rule arccos_lbound [OF m s(2)])
  show "arccos (sqrt p) \<le> pi / 2" by (rule arccos_le_pi2 [OF s])
  show c: "cos (arccos (sqrt p)) = sqrt p" by (rule cos_arccos [OF m s(2)])
  show "(cos (arccos (sqrt p)))\<^sup>2 = p" using assms(1) by (simp add: c)
qed

lemma invert_round_trip_general:
  assumes "0 < n" "0 \<le> p" "p \<le> 1"
  shows "invert_T2rootp ((cheb n (sqrt p))\<^sup>2) n p = Inr (Some p)"
proof -
  define th where "th = arccos (sqrt p)"
  have th: "0 \<le> th" "th \<le> pi / 2" and cs: "cos th = sqrt p"
    using arccos_sqrt_facts [OF assms(2,3)] by (simp_all add: th_def)
  have "cheb n (sqrt p) = cos (real_of_int n * th)"
    using cheb_cos [of n th] assms(1) by (simp add: cs)
  moreover have "invert_T2rootp ((cos (real_of_int n * th))\<^sup>2) n p = Inr (Some ((cos th)\<^sup>2))"
    by (rule invert_at_angle [OF assms(1) th assms(2,3)]) (simp add: th_def)
  ultimately show ?thesis using assms(2) by (simp add: cs)
qed

text \<open>
  C2. For every \<open>k \<ge> 0\<close>, \<open>n = 2k + 1\<close> and \<open>p\<close> in \<open>(0, 1)\<close>, inverting the statistic
  \<open>g\<^sub>n(p) = T\<^sub>n\<^sup>2(\<surd>p)\<close> with the hint \<open>p\<close> itself gives back \<open>p\<close>, exactly, in real
  arithmetic.
\<close>

theorem invert_round_trip:
  "0 \<le> j \<Longrightarrow> 0 < p \<Longrightarrow> p < 1 \<Longrightarrow>
     invert_T2rootp (g (2 * j + 1) p) (2 * j + 1) p = Inr (Some p)"
  unfolding g_def by (rule invert_round_trip_general) simp_all

theorem invert_round_trip_witness:
  "(0::int) \<le> 1 \<and> (0::real) < 3 / 10 \<and> (3 / 10 :: real) < 1 \<and>
     invert_T2rootp (g (2 * 1 + 1) (3 / 10)) (2 * 1 + 1) (3 / 10) = Inr (Some (3 / 10))"
  using invert_round_trip [of 1 "3 / 10"] by simp

subsection \<open>The gap of step 4(b)\<close>

lemma cheb_3: "cheb 3 x = 4 * x ^ 3 - 3 * x"
  by (simp add: cheb_def eval_nat_numeral algebra_simps)

lemma g_3: "0 \<le> p \<Longrightarrow> g 3 p = p * (4 * p - 3)\<^sup>2"
proof -
  assume p: "0 \<le> p"
  have "cheb 3 (sqrt p) = sqrt p * (4 * p - 3)"
    using p by (simp add: cheb_3 power3_eq_cube algebra_simps)
  then show ?thesis using p by (simp add: g_def power_mult_distrib)
qed

lemma gap_of_g:
  "0 \<le> p_min s \<Longrightarrow> 0 \<le> p_max s \<Longrightarrow>
     gap_of s = Some (g (2 * k s + 1) (p_max s) - g (2 * k s + 1) (p_min s))"
  by (simp add: gap_of_def np_sqrt_def g_def)

lemma g_1: "g 1 p = (sqrt p)\<^sup>2"
  by (simp add: g_def cheb_def)

subsection \<open>Tools for evaluating concrete runs\<close>

lemma find_next_k_unit: "0 \<le> mk \<Longrightarrow> find_next_k 0 1 mk = Inr None"
  by (simp add: find_next_k_def np_sqrt_def np_arccos_def py_int_def find_next_k_loop.simps)

lemma foldl_max_ge_acc:
  "acc \<le> foldl (\<lambda>m c. if h c > m then h c else m) acc xs" for acc :: real
proof (induction xs arbitrary: acc)
  case Nil
  show ?case by simp
next
  case (Cons x xs)
  have "acc \<le> (if h x > acc then h x else acc)" by simp
  also have "\<dots> \<le> foldl (\<lambda>m c. if h c > m then h c else m) (if h x > acc then h x else acc) xs"
    by (rule Cons.IH)
  finally show ?case by simp
qed

lemma foldl_max_ge_elem:
  "c \<in> set xs \<Longrightarrow> h c \<le> foldl (\<lambda>m c. if h c > m then h c else m) acc xs" for acc :: real
proof (induction xs arbitrary: acc)
  case Nil
  then show ?case by simp
next
  case (Cons x xs)
  show ?case
  proof (cases "c = x")
    case True
    have "h c \<le> (if h x > acc then h x else acc)" using True by simp
    also have "\<dots> \<le> foldl (\<lambda>m c. if h c > m then h c else m) (if h x > acc then h x else acc) xs"
      by (rule foldl_max_ge_acc)
    finally show ?thesis by simp
  next
    case False
    with Cons.prems have "c \<in> set xs" by simp
    from Cons.IH [OF this] show ?thesis by simp
  qed
qed

lemma max_error_cp_fold:
  "max_error_cp ci delta Nshots =
     foldl (\<lambda>m c. if (snd (ci c Nshots delta) - fst (ci c Nshots delta)) / 2 > m
                    then (snd (ci c Nshots delta) - fst (ci c Nshots delta)) / 2 else m)
           0 [0 ..< Nshots + 1]"
  unfolding max_error_cp_def by (rule arg_cong [where f = "\<lambda>f. foldl f 0 [0 ..< Nshots + 1]"])
    (auto simp: fun_eq_iff split: prod.splits)

lemma max_error_cp_nonneg: "0 \<le> max_error_cp ci delta Nshots"
  unfolding max_error_cp_fold by (rule foldl_max_ge_acc)

lemma max_error_cp_ge:
  assumes "c \<le> Nshots"
  shows "(snd (ci c Nshots delta) - fst (ci c Nshots delta)) / 2 \<le> max_error_cp ci delta Nshots"
proof -
  have "c \<in> set [0 ..< Nshots + 1]" using assms by auto
  from foldl_max_ge_elem [OF this, where h = "\<lambda>c. (snd (ci c Nshots delta) - fst (ci c Nshots delta)) / 2"]
  show ?thesis unfolding max_error_cp_fold .
qed

lemma toss_constant:
  assumes "\<And>i. np_less (Some (rnd i)) T2 = h"
  shows "toss rnd T2 m s =
     s\<lparr>num_heads := num_heads s + (if h then m else 0), num_flips := num_flips s + m,
       queries := queries s + int m * (2 * k s + 1), draws := draws s + m\<rparr>"
proof (induction m arbitrary: s)
  case 0
  show ?case by simp
next
  case (Suc m)
  show ?case by (simp add: Suc.IH assms algebra_simps)
qed

lemma invert_first_lobe:
  fixes n :: int
  assumes n: "0 < n" and T2: "0 \<le> T2" "T2 \<le> 1" and hint: "0 \<le> p_int" "p_int \<le> 1"
    and lobe: "arccos (sqrt p_int) < pi / (2 * real_of_int n)"
  shows "invert_T2rootp T2 n p_int = Inr (Some ((cos (arccos (2 * T2 - 1) / (2 * real_of_int n)))\<^sup>2))"
proof -
  have npos: "0 < real_of_int n" using n by simp
  have "0 \<le> arccos (sqrt p_int) / (pi / (2 * real_of_int n))"
    using arccos_sqrt_facts(1) [OF hint] npos by simp
  moreover have "arccos (sqrt p_int) / (pi / (2 * real_of_int n)) < 1"
    using lobe npos by (simp add: field_simps)
  ultimately have t: "\<lfloor>arccos (sqrt p_int) / (pi / (2 * real_of_int n))\<rfloor> = 0"
    by linarith
  have "\<not> (2 * T2 - 1 < - 1 \<or> 1 < 2 * T2 - 1)" using T2 by linarith
  then have arc: "np_arccos (2 * T2 - 1) = Some (arccos (2 * T2 - 1))"
    by (simp add: np_arccos_def)
  from t have t': "\<lfloor>arccos (sqrt p_int) * (2 * real_of_int n) / pi\<rfloor> = 0" by simp
  show ?thesis
    using n by (simp add: invert_T2rootp_def arccos_sqrt_some [OF hint] Let_def t' arc)
qed

lemma invert_degree_one:
  assumes T2: "0 \<le> T2" "T2 \<le> 1" and hint: "0 < p_int" "p_int \<le> 1"
  shows "invert_T2rootp T2 1 p_int = Inr (Some T2)"
proof -
  have "0 < sqrt p_int" "sqrt p_int \<le> 1" using hint by simp_all
  then have "arccos (sqrt p_int) < arccos 0"
    by (intro arccos_less_arccos) simp_all
  then have lobe: "arccos (sqrt p_int) < pi / (2 * real_of_int 1)" by simp
  have "- 1 \<le> 2 * T2 - 1" "2 * T2 - 1 \<le> 1" using T2 by linarith+
  then have c: "cos (arccos (2 * T2 - 1)) = 2 * T2 - 1" by (rule cos_arccos)
  have "(cos (arccos (2 * T2 - 1) / 2))\<^sup>2 = (1 + cos (arccos (2 * T2 - 1))) / 2"
    using cos_double_cos [of "arccos (2 * T2 - 1) / 2"] by simp
  also have "\<dots> = T2" by (simp add: c)
  finally have "(cos (arccos (2 * T2 - 1) / 2))\<^sup>2 = T2" .
  with invert_first_lobe [OF _ T2 _ hint(2) lobe] hint(1) show ?thesis by simp
qed

subsection \<open>The iteration budget and the end of the loop\<close>

lemma T2_of_degree_one: "0 \<le> p \<Longrightarrow> k s = 0 \<Longrightarrow> T2_of p s = Some p"
  by (simp add: T2_of_def np_sqrt_def cheb_def)

lemma first_pass_one_tail:
  assumes a: "1 / 10 ^ 14 < a" "a \<le> 2" and r: "0 \<le> r" and p: "0 \<le> p_target"
    and tail: "\<not> rnd 0 < p_target"
  shows "chebpe_iteration clopper_pearson rnd p_target eps a err_max nu r 1 init_state =
     Inr \<lparr>p_min = 0, p_max = 1 - a / 2 + 1 / 10 ^ 15, num_flips = 1, num_heads = 0, k = 0,
          queries = 1, draws = 1\<rparr>"
proof -
  define mid where
    "mid = \<lparr>p_min = 0, p_max = 1, num_flips = 1, num_heads = 0, k = 0, queries = 1, draws = 1\<rparr>"
  have sel: "select_degree r init_state = Inr init_state"
    using r by (simp add: select_degree_def init_state_def find_next_k_unit)
  have sh: "shots_of err_max nu eps 1 init_state = 1"
    by (simp add: shots_of_def split: option.splits)
  have T2: "T2_of p_target init_state = Some p_target"
    using p by (simp add: T2_of_degree_one init_state_def)
  have ts: "toss rnd (Some p_target) 1 init_state = mid"
    using tail by (simp add: init_state_def np_less_def mid_def)
  have step: "chebpe_iteration clopper_pearson rnd p_target eps a err_max nu r 1 init_state =
      update_interval clopper_pearson a mid"
    by (simp only: chebpe_iteration_def sel Let_def sum.case sh T2 ts)
  have i0: "invert_T2rootp 0 1 (1 / 2) = Inr (Some 0)"
    by (rule invert_degree_one) simp_all
  have i1: "invert_T2rootp (1 - a / 2) 1 (1 / 2) = Inr (Some (1 - a / 2))"
    using a by (intro invert_degree_one) simp_all
  have "update_interval clopper_pearson a mid =
     Inr \<lparr>p_min = 0, p_max = 1 - a / 2 + 1 / 10 ^ 15, num_flips = 1, num_heads = 0, k = 0,
          queries = 1, draws = 1\<rparr>"
    using a
    by (simp add: mid_def Let_def update_interval_def
          clopper_pearson_def i0 i1 sorted2_def np_less_def py_max_def py_min_def)
  with step show ?thesis by simp
qed

lemma iteration_budget_eq:
  fixes T :: nat
  assumes "0 < eps" "1 < r" "r ^ T < 1 / (2 * eps)" "1 / (2 * eps) \<le> r ^ Suc T"
  shows "iteration_budget eps r = Inr (int T + 1)"
proof -
  have lr: "0 < ln r" using assms(2) by simp
  have pos: "0 < 1 / (2 * eps)" using assms(1) by simp
  have rT: "0 < r ^ T" using assms(2) by simp
  have "ln (r ^ T) < ln (1 / (2 * eps))"
    using assms(3) by (simp only: ln_less_cancel_iff [OF rT pos])
  then have lo: "real T * ln r < ln (1 / (2 * eps))"
    using assms(2) by (simp add: ln_realpow)
  have rT': "0 < r ^ Suc T" using assms(2) by simp
  have "ln (1 / (2 * eps)) \<le> ln (r ^ Suc T)"
    using assms(4) by (simp only: ln_le_cancel_iff [OF pos rT'])
  also have "ln (r ^ Suc T) = real (Suc T) * ln r"
    using ln_realpow [of r "Suc T"] assms(2) by (simp del: power_Suc)
  finally have hi: "ln (1 / (2 * eps)) \<le> (real T + 1) * ln r"
    by (simp add: algebra_simps)
  have "real_of_int (int T) < ln (1 / (2 * eps)) / ln r"
    using lo lr by (simp add: field_simps)
  moreover have "ln (1 / (2 * eps)) / ln r \<le> real_of_int (int T) + 1"
    using hi lr by (simp add: field_simps)
  ultimately have "\<lceil>ln (1 / (2 * eps)) / ln r\<rceil> = int T + 1"
    by (rule ceiling_eq)
  then show ?thesis using assms(1,2) by (simp add: iteration_budget_def)
qed

lemma budget_3_10: "iteration_budget (3 / 10) 2 = Inr 1"
  using iteration_budget_eq [of "3 / 10" 2 0] by simp

lemma budget_49_100: "iteration_budget (49 / 100) 2 = Inr 1"
  using iteration_budget_eq [of "49 / 100" 2 0] by simp

text \<open>
  Nothing in the loop counts passes against \<open>T\<close>. With \<open>eps = 0.3\<close>, \<open>r = 2\<close> the budget
  is \<open>T = 1\<close>; with \<open>alpha = 0.05\<close>, \<open>Nshots = 1\<close>, \<open>p_target = 0.5\<close> and a first coin that
  shows tails, the first pass narrows \<open>[0, 1]\<close> to \<open>[0, 0.975 + 10\<^sup>-\<^sup>1\<^sup>5]\<close> only, which is
  wider than \<open>2 * eps = 0.6\<close>: after \<open>T\<close> passes the loop has not stopped.
\<close>

lemma one_tail_exceeds_budget:
  "iteration_budget (3 / 10) 2 = Inr 1 \<and>
   chebpe clopper_pearson (\<lambda>i. 9 / 10) 1 (1 / 2) (3 / 10) (1 / 20) 8 2 1 = None"
proof -
  have "chebpe_loop clopper_pearson (\<lambda>i. 9 / 10) (1 / 2) (3 / 10) (1 / 20) err_max 8 2 1 (Suc 0) init_state = None"
    for err_max
    using first_pass_one_tail [of "1 / 20" 2 "1 / 2" "\<lambda>i. 9 / 10" "3 / 10" err_max 8]
    by (simp add: init_state_def)
  then show ?thesis by (simp add: chebpe_def budget_3_10 Let_def)
qed

lemma chebpe_loop_exit:
  "chebpe_loop ci rnd p_target eps alpha_T err_max nu r Nshots fuel s = Some (Inr s') \<Longrightarrow>
     p_max s' - p_min s' \<le> eps * 2"
proof (induction fuel arbitrary: s)
  case 0
  then show ?case by (simp split: if_splits)
next
  case (Suc fuel)
  show ?case
  proof (cases "p_max s - p_min s > eps * 2")
    case False
    with Suc.prems show ?thesis by simp
  next
    case True
    with Suc.prems Suc.IH show ?thesis by (simp split: sum.splits)
  qed
qed

lemma run_one_tail:
  "chebpe clopper_pearson (\<lambda>i. 9 / 10) 1 (1 / 2) (49 / 100) (1 / 20) 8 2 1 =
     Some (Inr (make_result (1 / 2) (49 / 100) (1 / 20) 8 2 1
       \<lparr>p_min = 0, p_max = 1 - 1 / 20 / 2 + 1 / 10 ^ 15, num_flips = 1, num_heads = 0, k = 0,
          queries = 1, draws = 1\<rparr>))"
proof -
  have "chebpe_loop clopper_pearson (\<lambda>i. 9 / 10) (1 / 2) (49 / 100) (1 / 20) err_max 8 2 1 (Suc 0) init_state =
      Some (Inr \<lparr>p_min = 0, p_max = 1 - 1 / 20 / 2 + 1 / 10 ^ 15, num_flips = 1, num_heads = 0, k = 0,
          queries = 1, draws = 1\<rparr>)"
    for err_max
    using first_pass_one_tail [of "1 / 20" 2 "1 / 2" "\<lambda>i. 9 / 10" "49 / 100" err_max 8]
    by (simp add: init_state_def)
  then show ?thesis by (simp add: chebpe_def budget_49_100 Let_def)
qed

theorem widths_shrink_degree_grows_witness:
  "(1::real) \<le> 2 \<and>
   sorted_wrt (\<lambda>a b. p_max b - p_min b \<le> p_max a - p_min a \<and> k a \<le> k b)
     (chebpe_run_trace clopper_pearson (\<lambda>i. 9 / 10) 1 (1 / 2) (49 / 100) (1 / 20) 8 2 1)"
  using widths_shrink_degree_grows
    [of 2 clopper_pearson "\<lambda>i. 9 / 10" 1 "1 / 2" "49 / 100" "1 / 20" 8 1]
  by simp

subsection \<open>Angles of the lobes of degree 3 and 5\<close>

lemma cos_sq_pi_10: "9 / 10 < (cos (pi / 10))\<^sup>2"
proof -
  define c where "c = cos (pi / 10)"
  define y where "y = c\<^sup>2"
  have "cheb_nat 5 c = cos (real 5 * (pi / 10))" unfolding c_def by (rule cheb_nat_cos)
  then have "cheb_nat 5 c = 0" by simp
  then have poly: "16 * c ^ 5 - 20 * c ^ 3 + 5 * c = 0"
    by (simp add: eval_nat_numeral algebra_simps)
  have cpos: "0 < c" unfolding c_def by (rule cos_gt_zero_pi) (use pi_gt_zero in simp_all)
  have "c * (16 * y * y - 20 * y + 5) = 16 * c ^ 5 - 20 * c ^ 3 + 5 * c"
    by (simp add: y_def eval_nat_numeral algebra_simps)
  with poly cpos have eq: "16 * (y * y) - 20 * y + 5 = 0" by simp
  have "cos (pi / 6) < cos (pi / 10)"
    by (subst cos_mono_less_eq) (use pi_gt_zero in simp_all)
  then have "sqrt 3 / 2 < c" by (simp add: cos_30 c_def)
  moreover have "0 \<le> sqrt 3 / 2" by simp
  ultimately have "(sqrt 3 / 2)\<^sup>2 < c\<^sup>2" by (intro power_strict_mono) simp_all
  then have y34: "3 / 4 < y" by (simp add: y_def power_divide)
  show ?thesis
  proof (rule ccontr)
    assume "\<not> 9 / 10 < (cos (pi / 10))\<^sup>2"
    then have le: "y \<le> 9 / 10" by (simp add: y_def c_def)
    have "0 \<le> (y - 3 / 4) * (9 / 10 - y)"
      using y34 le by (intro mult_nonneg_nonneg) simp_all
    moreover have "(y - 3 / 4) * (9 / 10 - y) = - (y * y) + (33 / 20) * y - 27 / 40"
      by algebra
    ultimately show False using eq le by linarith
  qed
qed

lemma arccos_sqrt_less_iff:
  assumes q: "0 \<le> q" "q \<le> 1" and phi: "0 \<le> phi" "phi \<le> pi / 2"
  shows "arccos (sqrt q) < phi \<longleftrightarrow> (cos phi)\<^sup>2 < q"
    and "phi < arccos (sqrt q) \<longleftrightarrow> q < (cos phi)\<^sup>2"
proof -
  note f = arccos_sqrt_facts [OF q]
  have cp: "0 \<le> cos phi" using phi by (intro cos_ge_zero) simp_all
  have b: "arccos (sqrt q) \<le> pi" "phi \<le> pi" using f(2) phi pi_gt_zero by linarith+
  have sq: "sqrt ((cos phi)\<^sup>2) = cos phi" using cp by simp
  have "arccos (sqrt q) < phi \<longleftrightarrow> cos phi < cos (arccos (sqrt q))"
    using cos_mono_less_eq [OF phi(1) b(2) f(1) b(1)] by simp
  also have "\<dots> \<longleftrightarrow> sqrt ((cos phi)\<^sup>2) < sqrt q" by (simp only: f(3) sq)
  also have "\<dots> \<longleftrightarrow> (cos phi)\<^sup>2 < q" by (rule real_sqrt_less_iff)
  finally show "arccos (sqrt q) < phi \<longleftrightarrow> (cos phi)\<^sup>2 < q" .
  have "phi < arccos (sqrt q) \<longleftrightarrow> cos (arccos (sqrt q)) < cos phi"
    using cos_mono_less_eq [OF f(1) b(1) phi(1) b(2)] by simp
  also have "\<dots> \<longleftrightarrow> sqrt q < sqrt ((cos phi)\<^sup>2)" by (simp only: f(3) sq)
  also have "\<dots> \<longleftrightarrow> q < (cos phi)\<^sup>2" by (rule real_sqrt_less_iff)
  finally show "phi < arccos (sqrt q) \<longleftrightarrow> q < (cos phi)\<^sup>2" .
qed

lemma cos_sq_pi_6: "(cos (pi / 6))\<^sup>2 = 3 / 4"
  by (simp add: cos_30 power_divide)

lemma find_next_k_top:
  assumes q: "3 / 4 < q" "q \<le> 9 / 10" and mk: "0 \<le> mk" "mk < 1"
  shows "find_next_k q 1 mk = Inr (Some 1)"
proof -
  define th where "th = arccos (sqrt q)"
  have q01: "0 \<le> q" "q \<le> 1" using q by linarith+
  have "q < (cos (pi / 10))\<^sup>2" using q(2) cos_sq_pi_10 by linarith
  then have lo: "pi / 10 < th"
    unfolding th_def using arccos_sqrt_less_iff(2) [OF q01, of "pi / 10"] pi_gt_zero by simp
  have "(cos (pi / 6))\<^sup>2 < q" using q(1) by (simp add: cos_sq_pi_6)
  then have hi: "th < pi / 6"
    unfolding th_def using arccos_sqrt_less_iff(1) [OF q01, of "pi / 6"] pi_gt_zero by simp
  have thpos: "0 < th" using lo pi_gt_zero by linarith
  have r1: "3 < pi / 2 / th" unfolding pos_less_divide_eq [OF thpos] using hi by linarith
  have r2: "pi / 2 / th < 5" unfolding pos_divide_less_eq [OF thpos] using lo by linarith
  have "py_int (pi / 2 / th) = \<lfloor>pi / 2 / th\<rfloor>" using r1 by (simp add: py_int_def)
  moreover have "\<lfloor>pi / 2 / th\<rfloor> = 3 \<or> \<lfloor>pi / 2 / th\<rfloor> = 4" using r1 r2 by linarith
  ultimately have n0: "(let n = py_int (pi / 2 / th) in if n mod 2 = 0 then n + 1 else n) = 3
      \<or> (let n = py_int (pi / 2 / th) in if n mod 2 = 0 then n + 1 else n) = 5"
    by auto
  have zero: "py_int (2 * real_of_int m * 0 / pi) = 0" for m by (simp add: py_int_def)
  have zero': "py_int 0 = 0" by (simp add: py_int_def)
  have "0 \<le> 2 * real_of_int 3 * th / pi" "2 * real_of_int 3 * th / pi < 1"
    using hi thpos pi_gt_zero by (simp_all add: field_simps)
  then have t3: "py_int (2 * real_of_int 3 * th / pi) = 0"
    unfolding py_int_def by (simp only: if_True) linarith
  have x5: "1 < 2 * real_of_int 5 * th / pi"
    using lo pi_gt_zero by (simp add: field_simps)
  then have "0 \<le> 2 * real_of_int 5 * th / pi" by linarith
  then have "py_int (2 * real_of_int 5 * th / pi) = \<lfloor>2 * real_of_int 5 * th / pi\<rfloor>"
    by (simp only: py_int_def if_True)
  moreover have "1 \<le> \<lfloor>2 * real_of_int 5 * th / pi\<rfloor>" using x5 by linarith
  ultimately have t5: "py_int (2 * real_of_int 5 * th / pi) \<noteq> 0" by linarith
  have l3: "find_next_k_loop 0 th mk 3 = Some 1"
    using mk by (subst find_next_k_loop.simps) (simp only: zero t3, simp)
  have l5: "find_next_k_loop 0 th mk 5 = Some 1"
    using mk t5 l3 by (subst find_next_k_loop.simps) (simp add: zero')
  have "find_next_k q 1 mk =
      Inr (find_next_k_loop 0 th mk (let n = py_int (pi / 2 / th) in if n mod 2 = 0 then n + 1 else n))"
    using thpos q01
    by (simp add: find_next_k_def arccos_sqrt_some th_def Let_def)
  with n0 l3 l5 show ?thesis by auto
qed

subsection \<open>A run of two passes: fifty heads, then fifty tails\<close>

lemma T2_of_g: "0 \<le> p \<Longrightarrow> T2_of p s = Some (g (2 * k s + 1) p)"
  by (simp add: T2_of_def np_sqrt_def g_def)

text \<open>The number \<open>cos\<^sup>2(arccos(-4/5)/6)\<close>, where \<open>g\<^sub>3\<close> is \<open>1/10\<close> on its top lobe.\<close>

lemma top_lobe_tenth:
  defines "v \<equiv> (cos (arccos (- 4 / 5) / 6))\<^sup>2"
  shows "3 / 4 < v" "v < 9 / 10 - 2 / 10 ^ 15"
proof -
  define phi where "phi = arccos (- 4 / 5 :: real)"
  define c where "c = cos (phi / 6)"
  have phi: "0 < phi" "phi < pi"
    using arccos_lt_bounded [of "- 4 / 5"] by (simp_all add: phi_def)
  have cphi: "cos phi = - 4 / 5" unfolding phi_def by (rule cos_arccos) simp_all
  have v: "v = c\<^sup>2" by (simp add: v_def c_def phi_def)
  have "cos (pi / 6) < cos (phi / 6)"
    by (subst cos_mono_less_eq) (use phi pi_gt_zero in simp_all)
  then have "sqrt 3 / 2 < c" by (simp add: cos_30 c_def)
  moreover have "0 \<le> sqrt 3 / 2" by simp
  ultimately have "(sqrt 3 / 2)\<^sup>2 < c\<^sup>2" by (intro power_strict_mono) simp_all
  then show v34: "3 / 4 < v" by (simp add: v power_divide)
  have "cos (3 * (phi / 6)) = 4 * c ^ 3 - 3 * c" unfolding c_def by (rule cos_treble_cos)
  then have "(cos (phi / 2))\<^sup>2 = (4 * c ^ 3 - 3 * c)\<^sup>2" by simp
  also have "\<dots> = v * (4 * v - 3)\<^sup>2" unfolding v by algebra
  finally have "v * (4 * v - 3)\<^sup>2 = (cos (phi / 2))\<^sup>2" by simp
  also have "\<dots> = (1 + cos phi) / 2" using cos_double_cos [of "phi / 2"] by simp
  finally have eq: "v * (4 * v - 3)\<^sup>2 = 1 / 10" by (simp add: cphi)
  show "v < 9 / 10 - 2 / 10 ^ 15"
  proof (rule ccontr)
    assume "\<not> v < 9 / 10 - 2 / 10 ^ 15"
    then have ge: "9 / 10 - 2 / 10 ^ 15 \<le> v" by simp
    then have "1 / 2 \<le> 4 * v - 3" by simp
    then have "(1 / 2)\<^sup>2 \<le> (4 * v - 3)\<^sup>2" by (intro power_mono) simp_all
    then have "1 / 4 \<le> (4 * v - 3)\<^sup>2" by (simp add: power_divide)
    moreover have "1 / 2 \<le> v" using ge by simp
    ultimately have "(1 / 2) * (1 / 4) \<le> v * (4 * v - 3)\<^sup>2"
      by (intro mult_mono) simp_all
    with eq show False by simp
  qed
qed

lemma heads_then_tails_pass_1:
  assumes cpH: "ci 50 50 a = (9 / 10, 1)" and err: "1 / 20 \<le> err"
  shows "chebpe_iteration ci (\<lambda>i. 1 / 2) (9 / 10) (1 / 25) a err (1 / 10) 2 50 init_state =
     Inr \<lparr>p_min = 9 / 10 - 1 / 10 ^ 15, p_max = 1, num_flips = 50, num_heads = 50, k = 0,
          queries = 50, draws = 50\<rparr>"
proof -
  define mid where
    "mid = \<lparr>p_min = 0, p_max = 1, num_flips = 50, num_heads = 50, k = 0, queries = 50, draws = 50\<rparr>"
  have sel: "select_degree 2 init_state = Inr init_state"
    by (simp add: select_degree_def init_state_def find_next_k_unit)
  have gap: "gap_of init_state = Some 1"
    by (simp add: gap_of_g init_state_def g_1)
  have w: "p_max init_state - p_min init_state = 1" by (simp add: init_state_def)
  have sh: "shots_of err (1 / 10) (1 / 25) 50 init_state = 50"
    using err by (simp add: shots_of_def gap np_div_less_def w)
  have T2: "T2_of (9 / 10) init_state = Some (9 / 10)"
    by (simp add: T2_of_degree_one init_state_def)
  have ts: "toss (\<lambda>i. 1 / 2) (Some (9 / 10)) 50 init_state = mid"
    by (subst toss_constant [where h = True]) (simp_all add: np_less_def init_state_def mid_def)
  have step: "chebpe_iteration ci (\<lambda>i. 1 / 2) (9 / 10) (1 / 25) a err (1 / 10) 2 50 init_state =
      update_interval ci a mid"
    by (simp only: chebpe_iteration_def sel Let_def sum.case sh T2 ts)
  have i0: "invert_T2rootp (9 / 10) 1 (1 / 2) = Inr (Some (9 / 10))"
    by (rule invert_degree_one) simp_all
  have i1: "invert_T2rootp 1 1 (1 / 2) = Inr (Some 1)"
    by (rule invert_degree_one) simp_all
  have "update_interval ci a mid =
     Inr \<lparr>p_min = 9 / 10 - 1 / 10 ^ 15, p_max = 1, num_flips = 50, num_heads = 50, k = 0,
          queries = 50, draws = 50\<rparr>"
    by (simp add: mid_def Let_def update_interval_def cpH i0 i1 sorted2_def np_less_def
          py_max_def py_min_def)
  with step show ?thesis by simp
qed

lemma g_3_top:
  assumes "3 / 4 < q" "q \<le> 9 / 10"
  shows "0 < g 3 1 - g 3 q" "g 3 1 - g 3 q \<le> 1"
proof -
  have "0 \<le> 4 * q - 3" "4 * q - 3 \<le> 3 / 5" using assms by simp_all
  then have "(4 * q - 3)\<^sup>2 \<le> (3 / 5)\<^sup>2" by (intro power_mono) simp_all
  then have sq: "(4 * q - 3)\<^sup>2 \<le> 9 / 25" by (simp add: power_divide)
  have "q * (4 * q - 3)\<^sup>2 \<le> (9 / 10) * (9 / 25)"
    using assms sq by (intro mult_mono) simp_all
  moreover have "0 \<le> q * (4 * q - 3)\<^sup>2" using assms by simp
  ultimately show "0 < g 3 1 - g 3 q" "g 3 1 - g 3 q \<le> 1"
    using assms by (simp_all add: g_3)
qed

lemma heads_then_tails_pass_2:
  assumes cpT: "ci 0 50 a = (0, 1 / 10)" and err: "1 / 20 \<le> err"
    and q: "3 / 4 < q" "q \<le> 9 / 10"
  shows "chebpe_iteration ci (\<lambda>i. 1 / 2) (9 / 10) (1 / 25) a err (1 / 10) 2 50
       \<lparr>p_min = q, p_max = 1, num_flips = 50, num_heads = 50, k = 0,
          queries = 50, draws = 50\<rparr> =
     Inr \<lparr>p_min = q, p_max = (cos (arccos (- 4 / 5) / 6))\<^sup>2 + 1 / 10 ^ 15,
          num_flips = 50, num_heads = 0, k = 1, queries = 200, draws = 100\<rparr>"
proof -
  define s1 where
    "s1 = \<lparr>p_min = q, p_max = 1, num_flips = 50, num_heads = 50, k = 0,
          queries = 50, draws = 50\<rparr>"
  define s1' where
    "s1' = \<lparr>p_min = q, p_max = 1, num_flips = 0, num_heads = 0, k = 1,
          queries = 50, draws = 50\<rparr>"
  define mid where
    "mid = \<lparr>p_min = q, p_max = 1, num_flips = 50, num_heads = 0, k = 1,
          queries = 200, draws = 100\<rparr>"
  define v :: real where "v = (cos (arccos (- 4 / 5) / 6))\<^sup>2"
  note vb = top_lobe_tenth [folded v_def]
  have fk: "find_next_k q 1 (2 * real_of_int 0) = Inr (Some 1)"
    using q by (intro find_next_k_top) simp_all
  have sel: "select_degree 2 s1 = Inr s1'"
    by (simp add: select_degree_def s1_def s1'_def fk [simplified])
  have gap: "gap_of s1' = Some (g 3 1 - g 3 q)"
    using q by (simp add: gap_of_g s1'_def)
  note gb = g_3_top [OF q]
  have w: "p_max s1' - p_min s1' = 1 - q" by (simp add: s1'_def)
  have "1 / 250 \<le> err * (1 - q) / (g 3 1 - g 3 q)"
  proof -
    have "1 / 250 \<le> (1 / 20) * (1 / 10 :: real)" by simp
    also have "\<dots> \<le> err * (1 - q)" using err q by (intro mult_mono) simp_all
    also have "\<dots> \<le> err * (1 - q) / (g 3 1 - g 3 q)"
    proof -
      have "0 \<le> err * (1 - q)" using err q by simp
      then have "err * (1 - q) * (g 3 1 - g 3 q) \<le> err * (1 - q) * 1"
        using gb(2) by (intro mult_left_mono)
      then show ?thesis using gb(1) by (simp add: pos_le_divide_eq)
    qed
    finally show ?thesis .
  qed
  then have sh: "shots_of err (1 / 10) (1 / 25) 50 s1' = 50"
    using gb(1) by (simp add: shots_of_def gap np_div_less_def w)
  have T2: "T2_of (9 / 10) s1' = Some (81 / 250)"
    by (simp add: T2_of_g s1'_def g_3 power2_eq_square)
  have ts: "toss (\<lambda>i. 1 / 2) (Some (81 / 250)) 50 s1' = mid"
    by (subst toss_constant [where h = False]) (simp_all add: np_less_def s1'_def mid_def)
  have step: "chebpe_iteration ci (\<lambda>i. 1 / 2) (9 / 10) (1 / 25) a err (1 / 10) 2 50 s1 =
      update_interval ci a mid"
    by (simp only: chebpe_iteration_def sel Let_def sum.case sh T2 ts)
  have h01: "0 \<le> (q + 1) / 2" "(q + 1) / 2 \<le> 1" using q by simp_all
  have hint: "arccos (sqrt ((q + 1) / 2)) < pi / (2 * real_of_int 3)"
    using arccos_sqrt_less_iff(1) [OF h01, of "pi / 6"] pi_gt_zero q
    by (simp add: cos_sq_pi_6)
  have i0: "invert_T2rootp 0 3 ((q + 1) / 2) = Inr (Some (3 / 4))"
    using invert_first_lobe [OF _ _ _ h01 hint, of 0] by (simp add: cos_sq_pi_6)
  have i1: "invert_T2rootp (1 / 10) 3 ((q + 1) / 2) = Inr (Some v)"
    using invert_first_lobe [OF _ _ _ h01 hint, of "1 / 10"] by (simp add: v_def)
  have "update_interval ci a mid =
     Inr \<lparr>p_min = q, p_max = v + 1 / 10 ^ 15,
          num_flips = 50, num_heads = 0, k = 1, queries = 200, draws = 100\<rparr>"
    using vb q
    by (simp add: mid_def Let_def update_interval_def cpT i0 i1 sorted2_def np_less_def
          py_max_def py_min_def)
  with step show ?thesis by (simp add: s1_def v_def)
qed

lemma budget_1_25: "iteration_budget (1 / 25) 2 = Inr 4"
  using iteration_budget_eq [of "1 / 25" 2 3] by simp

lemma clopper_pearson_all_agree:
  fixes x :: real
  assumes "0 \<le> x"
  shows "clopper_pearson 50 50 (8 * x ^ 50 / real_of_int 4) = (x, 1)"
    "clopper_pearson 0 50 (8 * x ^ 50 / real_of_int 4) = (0, 1 - x)"
proof -
  have "root 50 (x ^ 50) = x" using assms by (intro real_root_power_cancel) simp_all
  then show "clopper_pearson 50 50 (8 * x ^ 50 / real_of_int 4) = (x, 1)"
    "clopper_pearson 0 50 (8 * x ^ 50 / real_of_int 4) = (0, 1 - x)"
    by (simp_all add: clopper_pearson_def)
qed

lemma heads_then_tails_loop:
  assumes cpH: "ci 50 50 a = (9 / 10, 1)" and cpT: "ci 0 50 a = (0, 1 / 10)"
    and err: "1 / 20 \<le> err"
  shows "chebpe_loop ci (\<lambda>i. 1 / 2) (9 / 10) (1 / 25) a err (1 / 10) 2 50 (Suc (Suc 0)) init_state =
     Some (Inr \<lparr>p_min = 9 / 10 - 1 / 10 ^ 15, p_max = (cos (arccos (- 4 / 5) / 6))\<^sup>2 + 1 / 10 ^ 15,
          num_flips = 50, num_heads = 0, k = 1, queries = 200, draws = 100\<rparr>)"
    and "chebpe_trace ci (\<lambda>i. 1 / 2) (9 / 10) (1 / 25) a err (1 / 10) 2 50 (Suc (Suc 0)) init_state =
     [init_state,
      \<lparr>p_min = 9 / 10 - 1 / 10 ^ 15, p_max = 1, num_flips = 50, num_heads = 50, k = 0,
          queries = 50, draws = 50\<rparr>,
      \<lparr>p_min = 9 / 10 - 1 / 10 ^ 15, p_max = (cos (arccos (- 4 / 5) / 6))\<^sup>2 + 1 / 10 ^ 15,
          num_flips = 50, num_heads = 0, k = 1, queries = 200, draws = 100\<rparr>]"
proof -
  have w: "p_max init_state - p_min init_state = 1" by (simp add: init_state_def)
  note p1 = heads_then_tails_pass_1 [of ci a err, OF cpH err]
  note p2 = heads_then_tails_pass_2 [of ci a err "9 / 10 - 1 / 10 ^ 15", OF cpT err]
  note vb = top_lobe_tenth(2)
  show "chebpe_loop ci (\<lambda>i. 1 / 2) (9 / 10) (1 / 25) a err (1 / 10) 2 50 (Suc (Suc 0)) init_state =
     Some (Inr \<lparr>p_min = 9 / 10 - 1 / 10 ^ 15, p_max = (cos (arccos (- 4 / 5) / 6))\<^sup>2 + 1 / 10 ^ 15,
          num_flips = 50, num_heads = 0, k = 1, queries = 200, draws = 100\<rparr>)"
    using vb p2 by (simp add: w p1)
  show "chebpe_trace ci (\<lambda>i. 1 / 2) (9 / 10) (1 / 25) a err (1 / 10) 2 50 (Suc (Suc 0)) init_state =
     [init_state,
      \<lparr>p_min = 9 / 10 - 1 / 10 ^ 15, p_max = 1, num_flips = 50, num_heads = 50, k = 0,
          queries = 50, draws = 50\<rparr>,
      \<lparr>p_min = 9 / 10 - 1 / 10 ^ 15, p_max = (cos (arccos (- 4 / 5) / 6))\<^sup>2 + 1 / 10 ^ 15,
          num_flips = 50, num_heads = 0, k = 1, queries = 200, draws = 100\<rparr>]"
    using vb p2 by (simp add: w p1)
qed

lemma heads_then_tails_run:
  defines "s2 \<equiv> \<lparr>p_min = 9 / 10 - 1 / 10 ^ 15, p_max = (cos (arccos (- 4 / 5) / 6))\<^sup>2 + 1 / 10 ^ 15,
          num_flips = 50, num_heads = 0, k = 1, queries = 200, draws = 100\<rparr>"
  shows "chebpe clopper_pearson (\<lambda>i. 1 / 2) 2 (9 / 10) (1 / 25) (8 * (9 / 10) ^ 50) (1 / 10) 2 50 =
          Some (Inr (make_result (9 / 10) (1 / 25) (8 * (9 / 10) ^ 50) (1 / 10) 2 50 s2))"
    and "chebpe_run_trace clopper_pearson (\<lambda>i. 1 / 2) 2 (9 / 10) (1 / 25) (8 * (9 / 10) ^ 50) (1 / 10) 2 50 =
          [init_state,
           \<lparr>p_min = 9 / 10 - 1 / 10 ^ 15, p_max = 1, num_flips = 50, num_heads = 50, k = 0,
              queries = 50, draws = 50\<rparr>,
           s2]"
proof -
  define a :: real where "a = 8 * (9 / 10) ^ 50 / real_of_int 4"
  define err where "err = max_error_cp clopper_pearson a 50"
  have cpH: "clopper_pearson 50 50 a = (9 / 10, 1)"
    unfolding a_def by (subst clopper_pearson_all_agree(1)) simp_all
  have cpT: "clopper_pearson 0 50 a = (0, 1 / 10)"
    unfolding a_def by (subst clopper_pearson_all_agree(2)) simp_all
  have err: "1 / 20 \<le> err"
    using max_error_cp_ge [of 0 50 clopper_pearson a] by (simp add: err_def cpT)
  note run = heads_then_tails_loop [of clopper_pearson a err, OF cpH cpT err, folded s2_def]
  have two: "(2::nat) = Suc (Suc 0)" by simp
  have e1: "chebpe clopper_pearson (\<lambda>i. 1 / 2) 2 (9 / 10) (1 / 25) (8 * (9 / 10) ^ 50) (1 / 10) 2 50 =
      (case chebpe_loop clopper_pearson (\<lambda>i. 1 / 2) (9 / 10) (1 / 25) a err (1 / 10) 2 50 2 init_state of
         None \<Rightarrow> None
       | Some (Inl e) \<Rightarrow> Some (Inl e)
       | Some (Inr s) \<Rightarrow> Some (Inr (make_result (9 / 10) (1 / 25) (8 * (9 / 10) ^ 50) (1 / 10) 2 50 s)))"
    by (simp add: chebpe_def budget_1_25 Let_def a_def err_def)
  have e2: "chebpe_loop clopper_pearson (\<lambda>i. 1 / 2) (9 / 10) (1 / 25) a err (1 / 10) 2 50 2 init_state =
      Some (Inr s2)"
    by (simp only: two run(1))
  show "chebpe clopper_pearson (\<lambda>i. 1 / 2) 2 (9 / 10) (1 / 25) (8 * (9 / 10) ^ 50) (1 / 10) 2 50 =
          Some (Inr (make_result (9 / 10) (1 / 25) (8 * (9 / 10) ^ 50) (1 / 10) 2 50 s2))"
    by (simp only: e1 e2 option.case sum.case)
  have t1: "chebpe_run_trace clopper_pearson (\<lambda>i. 1 / 2) 2 (9 / 10) (1 / 25) (8 * (9 / 10) ^ 50) (1 / 10) 2 50 =
      chebpe_trace clopper_pearson (\<lambda>i. 1 / 2) (9 / 10) (1 / 25) a err (1 / 10) 2 50 2 init_state"
    by (simp add: chebpe_run_trace_def budget_1_25 a_def err_def)
  show "chebpe_run_trace clopper_pearson (\<lambda>i. 1 / 2) 2 (9 / 10) (1 / 25) (8 * (9 / 10) ^ 50) (1 / 10) 2 50 =
          [init_state,
           \<lparr>p_min = 9 / 10 - 1 / 10 ^ 15, p_max = 1, num_flips = 50, num_heads = 50, k = 0,
              queries = 50, draws = 50\<rparr>,
           s2]"
    unfolding t1 by (simp only: two run(2))
qed

text \<open>
  C9, as stated, fails: the intersection is taken without any check and can be empty.
  With \<open>eps = 0.04\<close> (so \<open>T = 4\<close>), \<open>alpha = 8 * 0.9\<^sup>5\<^sup>0\<close> (about \<open>0.041\<close>), \<open>nu = 0.1\<close>,
  \<open>r = 2\<close>, \<open>Nshots = 50\<close>, \<open>p_target = 0.9\<close> and every random number equal to \<open>1/2\<close>:
  the first pass, at degree \<open>1\<close>, sees \<open>50\<close> heads and narrows the interval to
  \<open>[0.9 - 10\<^sup>-\<^sup>1\<^sup>5, 1]\<close>; the second pass moves to degree \<open>3\<close>, sees \<open>50\<close> tails, and the
  inverted confidence interval lies wholly below \<open>0.9\<close>. The loop ends with
  \<open>p_max < p_min\<close> and \<open>chebpe\<close> returns a negative \<open>ci_width\<close>.
\<close>

theorem interval_can_become_empty:
  "(case chebpe clopper_pearson (\<lambda>i. 1 / 2) 2 (9 / 10) (1 / 25) (8 * (9 / 10) ^ 50) (1 / 10) 2 50 of
      Some (Inr res) \<Rightarrow> ci_width res < 0 | _ \<Rightarrow> False)
   \<and> p_max (last (chebpe_run_trace clopper_pearson (\<lambda>i. 1 / 2) 2 (9 / 10) (1 / 25)
                     (8 * (9 / 10) ^ 50) (1 / 10) 2 50))
     < p_min (last (chebpe_run_trace clopper_pearson (\<lambda>i. 1 / 2) 2 (9 / 10) (1 / 25)
                     (8 * (9 / 10) ^ 50) (1 / 10) 2 50))"
  using top_lobe_tenth(2)
  by (simp add: heads_then_tails_run make_result_def)

lemma chebpe_trace_running:
  "0 \<le> eps \<Longrightarrow>
     list_all (\<lambda>s. p_min s < p_max s)
       (butlast (chebpe_trace ci rnd p_target eps alpha_T err_max nu r Nshots fuel s))"
proof (induction fuel arbitrary: s)
  case 0
  show ?case by simp
next
  case (Suc fuel)
  show ?case
  proof (cases "p_max s - p_min s > eps * 2")
    case False
    then show ?thesis by simp
  next
    case True
    with Suc.prems have lt: "p_min s < p_max s" by simp
    show ?thesis
    proof (cases "chebpe_iteration ci rnd p_target eps alpha_T err_max nu r Nshots s")
      case (Inl e)
      with True show ?thesis by simp
    next
      case (Inr s')
      obtain ss where ss: "chebpe_trace ci rnd p_target eps alpha_T err_max nu r Nshots fuel s' = s' # ss"
        using chebpe_trace_Cons by blast
      from Suc.IH [OF Suc.prems, of s'] True Inr lt ss show ?thesis by simp
    qed
  qed
qed

lemma chebpe_trace_in_unit:
  "0 \<le> p_min s \<Longrightarrow> p_max s \<le> 1 \<Longrightarrow>
     list_all (\<lambda>s. 0 \<le> p_min s \<and> p_max s \<le> 1)
       (chebpe_trace ci rnd p_target eps alpha_T err_max nu r Nshots fuel s)"
proof (induction fuel arbitrary: s)
  case 0
  then show ?case by simp
next
  case (Suc fuel)
  show ?case
  proof (cases "chebpe_iteration ci rnd p_target eps alpha_T err_max nu r Nshots s")
    case (Inl e)
    with Suc.prems show ?thesis by simp
  next
    case (Inr s')
    from chebpe_iteration_step(1,2) [OF Inr] Suc.prems have "0 \<le> p_min s'" "p_max s' \<le> 1"
      by linarith+
    from Suc.IH [OF this] Inr Suc.prems show ?thesis by simp
  qed
qed

text \<open>
  C9, amended. For \<open>eps \<ge> 0\<close>: at the head of every pass that the loop makes the
  interval is proper, \<open>p_min < p_max\<close>, and in every state of a run
  \<open>0 \<le> p_min\<close> and \<open>p_max \<le> 1\<close>. (The state in which the loop stops may have
  \<open>p_max < p_min\<close>.)
\<close>

theorem interval_ordered_while_running:
  "0 \<le> eps \<Longrightarrow>
     list_all (\<lambda>s. p_min s < p_max s)
       (butlast (chebpe_run_trace ci rnd fuel p_target eps alpha nu r Nshots))
     \<and> list_all (\<lambda>s. 0 \<le> p_min s \<and> p_max s \<le> 1)
       (chebpe_run_trace ci rnd fuel p_target eps alpha nu r Nshots)"
  by (auto simp: chebpe_run_trace_def init_state_def
           intro!: chebpe_trace_running chebpe_trace_in_unit split: sum.splits)

theorem interval_ordered_while_running_witness:
  "(0::real) \<le> 1 / 25
   \<and> list_all (\<lambda>s. p_min s < p_max s)
       (butlast (chebpe_run_trace clopper_pearson (\<lambda>i. 1 / 2) 2 (9 / 10) (1 / 25)
                   (8 * (9 / 10) ^ 50) (1 / 10) 2 50))
   \<and> list_all (\<lambda>s. 0 \<le> p_min s \<and> p_max s \<le> 1)
       (chebpe_run_trace clopper_pearson (\<lambda>i. 1 / 2) 2 (9 / 10) (1 / 25)
                   (8 * (9 / 10) ^ 50) (1 / 10) 2 50)
   \<and> length (chebpe_run_trace clopper_pearson (\<lambda>i. 1 / 2) 2 (9 / 10) (1 / 25)
                   (8 * (9 / 10) ^ 50) (1 / 10) 2 50) = 3"
  using interval_ordered_while_running
    [of "1 / 25" clopper_pearson "\<lambda>i. 1 / 2" 2 "9 / 10" "8 * (9 / 10) ^ 50" "1 / 10" 2 50]
  by (simp add: heads_then_tails_run(2))

theorem oracle_calls_are_shots_times_degree_witness:
  "chebpe clopper_pearson (\<lambda>i. 1 / 2) 2 (9 / 10) (1 / 25) (8 * (9 / 10) ^ 50) (1 / 10) 2 50 =
     Some (Inr (make_result (9 / 10) (1 / 25) (8 * (9 / 10) ^ 50) (1 / 10) 2 50
       \<lparr>p_min = 9 / 10 - 1 / 10 ^ 15, p_max = (cos (arccos (- 4 / 5) / 6))\<^sup>2 + 1 / 10 ^ 15,
          num_flips = 50, num_heads = 0, k = 1, queries = 200, draws = 100\<rparr>))
   \<and> cost_sum (chebpe_run_trace clopper_pearson (\<lambda>i. 1 / 2) 2 (9 / 10) (1 / 25)
                   (8 * (9 / 10) ^ 50) (1 / 10) 2 50) = 200"
  using oracle_calls_are_shots_times_degree [OF heads_then_tails_run(1)]
  by (simp add: heads_then_tails_run(1) make_result_def)

subsection \<open>The degree selector\<close>

lemma arccos_sqrt_three_quarters: "arccos (sqrt (3 / 4)) = pi / 6"
proof -
  have "sqrt (3 / 4) = cos (pi / 6)" by (simp add: cos_30 real_sqrt_divide)
  then show ?thesis using pi_gt_zero by (simp add: arccos_cos)
qed

lemma arccos_sqrt_half: "arccos (sqrt (1 / 2)) = pi / 4"
proof -
  have "sqrt (1 / 2) = sqrt 2 / 2"
    by (simp add: real_sqrt_divide real_div_sqrt)
  then have "sqrt (1 / 2) = cos (pi / 4)" by (simp add: cos_45)
  then show ?thesis using pi_gt_zero by (simp add: arccos_cos)
qed

lemma find_next_k_half_three_quarters: "find_next_k (1 / 2) (3 / 4) 0 = Inr (Some 1)"
proof -
  have l3: "find_next_k_loop (pi / 6) (pi / 4) 0 3 = Some 1"
    by (subst find_next_k_loop.simps) (simp add: py_int_def)
  have l5: "find_next_k_loop (pi / 6) (pi / 4) 0 5 = Some 1"
    by (subst find_next_k_loop.simps) (simp add: py_int_def l3)
  have l7: "find_next_k_loop (pi / 6) (pi / 4) 0 7 = Some 1"
    by (subst find_next_k_loop.simps) (simp add: py_int_def l5)
  have bind: "Option.bind (np_sqrt (3 / 4)) np_arccos = Some (pi / 6)"
    "Option.bind (np_sqrt (1 / 2)) np_arccos = Some (pi / 4)"
    using arccos_sqrt_some [of "3 / 4"] arccos_sqrt_some [of "1 / 2"]
    by (simp_all add: arccos_sqrt_three_quarters arccos_sqrt_half)
  show ?thesis
    unfolding find_next_k_def bind using pi_gt_zero by (simp add: py_int_def l7)
qed

lemma local_extremum_g_3: "local_extremum (g 3) (3 / 4)"
proof -
  have "g 3 (3 / 4) = 0" by (simp add: g_3)
  moreover have "0 \<le> g 3 y" for y by (simp add: g_def)
  ultimately have "\<forall>y. \<bar>y - 3 / 4\<bar> < 1 \<longrightarrow> g 3 (3 / 4) \<le> g 3 y" by simp
  then show ?thesis unfolding local_extremum_def by (intro exI [of _ 1]) simp
qed

lemma find_next_k_loop_unfold:
  "find_next_k_loop lo hi mk n =
     (if real_of_int n > 2 * mk + 1 then
        (if same_lobe lo hi n then Some ((n - 1) div 2) else find_next_k_loop lo hi mk (n - 2))
      else None)"
  by (subst find_next_k_loop.simps) (simp add: same_lobe_def)

lemma find_next_k_loop_Some:
  "find_next_k_loop lo hi mk n = Some j \<Longrightarrow> odd n \<Longrightarrow>
     2 * j + 1 \<le> n \<and> mk < real_of_int j \<and> same_lobe lo hi (2 * j + 1)
     \<and> (\<forall>i. j < i \<and> 2 * i + 1 \<le> n \<longrightarrow> \<not> same_lobe lo hi (2 * i + 1))"
proof (induction lo hi mk n rule: find_next_k_loop.induct)
  case (1 lo hi mk n)
  from "1.prems"(1) have gt: "real_of_int n > 2 * mk + 1"
    by (subst (asm) find_next_k_loop_unfold) (simp split: if_splits)
  from \<open>odd n\<close> obtain m where m: "n = 2 * m + 1" by (auto elim: oddE)
  show ?case
  proof (cases "same_lobe lo hi n")
    case True
    with "1.prems"(1) gt have "j = (n - 1) div 2"
      by (subst (asm) find_next_k_loop_unfold) simp
    with m have j: "j = m" by simp
    with gt m True show ?thesis by auto
  next
    case False
    with "1.prems"(1) gt have rec: "find_next_k_loop lo hi mk (n - 2) = Some j"
      by (subst (asm) find_next_k_loop_unfold) simp
    have t: "py_int (2 * real_of_int n * lo / pi) \<noteq> py_int (2 * real_of_int n * hi / pi)"
      using False by (simp add: same_lobe_def)
    have "odd (n - 2)" using \<open>odd n\<close> by simp
    from "1.IH" [OF gt t rec this]
    have ih: "2 * j + 1 \<le> n - 2" "mk < real_of_int j" "same_lobe lo hi (2 * j + 1)"
      "\<forall>i. j < i \<and> 2 * i + 1 \<le> n - 2 \<longrightarrow> \<not> same_lobe lo hi (2 * i + 1)"
      by blast+
    have "\<not> same_lobe lo hi (2 * i + 1)" if "j < i" "2 * i + 1 \<le> n" for i
    proof (cases "2 * i + 1 \<le> n - 2")
      case True
      with ih(4) that show ?thesis by blast
    next
      case False
      with that m have "2 * i + 1 = n" by presburger
      with \<open>\<not> same_lobe lo hi n\<close> show ?thesis by simp
    qed
    with ih show ?thesis by auto
  qed
qed

lemma same_lobe_too_wide:
  assumes lo: "0 \<le> lo" "lo < hi" and m: "pi / 2 / (hi - lo) < real_of_int m"
  shows "\<not> same_lobe lo hi m"
proof -
  have d: "0 < hi - lo" using lo by simp
  have "0 < pi / 2 / (hi - lo)" using d pi_gt_zero by simp
  with m have mpos: "0 < real_of_int m" by linarith
  from m have "pi / 2 < real_of_int m * (hi - lo)" unfolding pos_divide_less_eq [OF d] .
  then have "pi < 2 * real_of_int m * hi - 2 * real_of_int m * lo" by (simp add: algebra_simps)
  then have "1 < (2 * real_of_int m * hi - 2 * real_of_int m * lo) / pi"
    using pi_gt_zero by (simp add: pos_less_divide_eq)
  then have gap: "2 * real_of_int m * lo / pi + 1 < 2 * real_of_int m * hi / pi"
    by (simp add: diff_divide_distrib)
  have x0: "0 \<le> 2 * real_of_int m * lo / pi" using mpos lo pi_gt_zero by simp
  then have x1: "0 \<le> 2 * real_of_int m * hi / pi" using gap by linarith
  have "\<lfloor>2 * real_of_int m * lo / pi\<rfloor> < \<lfloor>2 * real_of_int m * hi / pi\<rfloor>"
    using gap by linarith
  then show ?thesis using x0 x1 by (simp add: same_lobe_def py_int_def)
qed

text \<open>
  C3. The docstring of \<open>find_next_k\<close> promises a degree with no extrema on the closed
  interval \<open>[p_min, p_max]\<close>; the code misses an extremum that sits exactly at \<open>p_max\<close>.
  On \<open>[1/2, 3/4]\<close> with \<open>min_k = 0\<close> the search returns \<open>k = 1\<close>, yet \<open>g\<^sub>3\<close> has a
  local minimum at \<open>3/4\<close>, a point of the interval: the test compares the integer parts
  of \<open>2n\<theta>/\<pi>\<close> at the two ends, and for \<open>n = 3\<close> these are \<open>1\<close> and \<open>1\<close>, the lower
  angle \<open>\<pi>/6\<close> lying on the boundary between two lobes. (The search starts from
  \<open>n = 7\<close>, the quotient \<open>(\<pi>/2)/(\<pi>/4 - \<pi>/6)\<close> being \<open>6\<close>; at \<open>n = 7\<close> and \<open>n = 5\<close>
  the integer parts are \<open>2, 3\<close> and \<open>1, 2\<close>; at \<open>n = 3\<close> the two quantities are \<open>1\<close>
  and \<open>3/2\<close>, which the doubles compute as \<open>1.0000000000000002\<close> and \<open>1.5\<close>.)
\<close>

theorem find_next_k_extremum_at_p_max:
  "find_next_k (1 / 2) (3 / 4) 0 = Inr (Some 1)
   \<and> (1 / 2 :: real) \<le> 3 / 4 \<and> (3 / 4 :: real) \<le> 3 / 4
   \<and> local_extremum (g (2 * 1 + 1)) (3 / 4)"
  using find_next_k_half_three_quarters local_extremum_g_3 by simp

theorem find_next_k_extremum_at_p_max_witness:
  "find_next_k (1 / 2) (3 / 4) 0 = Inr (Some 1)
   \<and> local_extremum (g 3) (3 / 4) \<and> g 3 (3 / 4) = 0 \<and> 0 < g 3 (1 / 2)"
  using find_next_k_extremum_at_p_max by (simp add: g_3)

subsection \<open>The statistic along a lobe\<close>

lemma cos_sq_half_angle: "(cos x)\<^sup>2 = (1 + cos (2 * x)) / 2" for x :: real
  using cos_double_cos [of x] by simp

lemma cos_sq_strict_lobe:
  fixes t :: int and u1 u2 :: real
  assumes "real_of_int t * pi / 2 \<le> u1" "u1 < u2" "u2 \<le> (real_of_int t + 1) * pi / 2"
  shows "even t \<Longrightarrow> (cos u2)\<^sup>2 < (cos u1)\<^sup>2" "odd t \<Longrightarrow> (cos u1)\<^sup>2 < (cos u2)\<^sup>2"
proof -
  define s1 where "s1 = 2 * u1 - real_of_int t * pi"
  define s2 where "s2 = 2 * u2 - real_of_int t * pi"
  have s: "0 \<le> s1" "s1 < s2" "s2 \<le> pi"
    using assms by (simp_all add: s1_def s2_def field_simps)
  have mono: "cos s2 < cos s1" by (rule cos_monotone_0_pi [OF s])
  have c: "cos (2 * u) = cos (2 * u - real_of_int t * pi) * (if even t then 1 else - 1)" for u
  proof -
    define w where "w = 2 * u - real_of_int t * pi"
    have "2 * u = w + pi * real_of_int t" by (simp add: w_def)
    then have "cos (2 * u) = cos (w + pi * real_of_int t)" by (rule arg_cong)
    also have "\<dots> = cos w * cos (pi * real_of_int t) - sin w * sin (pi * real_of_int t)"
      by (rule cos_add)
    also have "\<dots> = cos w * (if even t then 1 else - 1)" by simp
    finally show ?thesis by (simp only: w_def)
  qed
  show "(cos u2)\<^sup>2 < (cos u1)\<^sup>2" if "even t"
    using mono that by (simp add: cos_sq_half_angle c [of u1] c [of u2] s1_def s2_def)
  show "(cos u1)\<^sup>2 < (cos u2)\<^sup>2" if "odd t"
    using mono that by (simp add: cos_sq_half_angle c [of u1] c [of u2] s1_def s2_def)
qed

lemma g_at_angle:
  assumes "0 \<le> n" "0 \<le> u" "u \<le> pi / 2"
  shows "g n ((cos u)\<^sup>2) = (cos (real_of_int n * u))\<^sup>2"
proof -
  have "0 \<le> cos u" using assms(2,3) by (intro cos_ge_zero) simp_all
  then have "sqrt ((cos u)\<^sup>2) = cos u" by simp
  then show ?thesis using assms(1) by (simp add: g_def cheb_cos)
qed

subsection \<open>The loop need not stop\<close>

lemma chebpe_loop_while:
  "chebpe_loop ci rnd p_target eps alpha_T err_max nu r Nshots fuel s = Some x \<Longrightarrow>
     chebpe_while ci rnd p_target eps alpha_T err_max nu r Nshots s = Some x"
proof (induction fuel arbitrary: s)
  case 0
  then show ?case by (subst chebpe_while.simps) (simp split: if_splits)
next
  case (Suc fuel)
  then show ?case by (subst chebpe_while.simps) (auto split: if_splits sum.splits)
qed

lemma chebpe_while_loop:
  assumes "chebpe_while ci rnd p_target eps alpha_T err_max nu r Nshots s = Some x"
  shows "\<exists>fuel. chebpe_loop ci rnd p_target eps alpha_T err_max nu r Nshots fuel s = Some x"
proof (rule chebpe_while.raw_induct
    [where P = "\<lambda>ci rnd p_target eps alpha_T err_max nu r Nshots s x.
       \<exists>fuel. chebpe_loop ci rnd p_target eps alpha_T err_max nu r Nshots fuel s = Some x",
     OF _ assms])
  fix w :: "confint \<Rightarrow> (nat \<Rightarrow> real) \<Rightarrow> real \<Rightarrow> real \<Rightarrow> real \<Rightarrow> real \<Rightarrow> real \<Rightarrow> real \<Rightarrow> nat \<Rightarrow>
     state \<Rightarrow> (pyerror + state) option"
  fix ci rnd p_target eps alpha_T err_max nu r Nshots s x
  assume IH: "\<And>ci rnd p_target eps alpha_T err_max nu r Nshots s x.
      w ci rnd p_target eps alpha_T err_max nu r Nshots s = Some x \<Longrightarrow>
      \<exists>fuel. chebpe_loop ci rnd p_target eps alpha_T err_max nu r Nshots fuel s = Some x"
    and body: "(if p_max s - p_min s > eps * 2 then
        (case chebpe_iteration ci rnd p_target eps alpha_T err_max nu r Nshots s of
           Inl e \<Rightarrow> Some (Inl e)
         | Inr s' \<Rightarrow> w ci rnd p_target eps alpha_T err_max nu r Nshots s')
      else Some (Inr s)) = Some x"
  show "\<exists>fuel. chebpe_loop ci rnd p_target eps alpha_T err_max nu r Nshots fuel s = Some x"
  proof (cases "p_max s - p_min s > eps * 2")
    case False
    with body have "chebpe_loop ci rnd p_target eps alpha_T err_max nu r Nshots 0 s = Some x"
      by simp
    then show ?thesis ..
  next
    case True
    show ?thesis
    proof (cases "chebpe_iteration ci rnd p_target eps alpha_T err_max nu r Nshots s")
      case (Inl e)
      with True body have x: "x = Inl e" by simp
      have "chebpe_loop ci rnd p_target eps alpha_T err_max nu r Nshots (Suc 0) s = Some x"
        unfolding x using True Inl by simp
      then show ?thesis ..
    next
      case (Inr s')
      with True body have "w ci rnd p_target eps alpha_T err_max nu r Nshots s' = Some x"
        by simp
      from IH [OF this] obtain fuel where
        "chebpe_loop ci rnd p_target eps alpha_T err_max nu r Nshots fuel s' = Some x" ..
      with True Inr
      have "chebpe_loop ci rnd p_target eps alpha_T err_max nu r Nshots (Suc fuel) s = Some x"
        by simp
      then show ?thesis ..
    qed
  qed
qed

lemma g_half: 
  assumes "0 \<le> j"
  shows "g (2 * j + 1) (1 / 2) = 1 / 2"
proof -
  have s: "sqrt (1 / 2) = cos (pi / 4)"
    by (simp add: cos_45 real_sqrt_divide real_div_sqrt)
  have "cos (2 * (real_of_int (2 * j + 1) * (pi / 4))) = cos (real_of_int (2 * j + 1) * (pi / 2))"
    by (simp add: algebra_simps)
  also have "\<dots> = 0"
    unfolding cos_zero_iff_int by (intro exI [of _ "2 * j + 1"]) simp
  finally have z: "cos (2 * (real_of_int (2 * j + 1) * (pi / 4))) = 0" .
  have "g (2 * j + 1) (1 / 2) = (cos (real_of_int (2 * j + 1) * (pi / 4)))\<^sup>2"
    unfolding g_def s using assms by (subst cheb_cos) simp_all
  also have "\<dots> = (1 + cos (2 * (real_of_int (2 * j + 1) * (pi / 4)))) / 2"
    by (rule cos_sq_half_angle)
  finally have e: "g (2 * j + 1) (1 / 2) = (1 + cos (2 * (real_of_int (2 * j + 1) * (pi / 4)))) / 2" .
  show ?thesis unfolding e z by simp
qed

lemma same_lobe_from_zero:
  assumes "same_lobe 0 hi n" "0 \<le> hi" "0 < n"
  shows "hi < pi / (2 * real_of_int n)"
proof -
  have x0: "0 \<le> 2 * real_of_int n * hi / pi" using assms(2,3) pi_gt_zero by simp
  from assms(1) have "\<lfloor>2 * real_of_int n * hi / pi\<rfloor> = 0"
    using x0 by (simp add: same_lobe_def py_int_def)
  then have "2 * real_of_int n * hi / pi < 1" by linarith
  then have "2 * real_of_int n * hi < pi" using pi_gt_zero by (simp add: pos_divide_less_eq)
  then show ?thesis using assms(3) by (simp add: pos_less_divide_eq mult.commute)
qed

lemma select_degree_all_heads:
  assumes inv: "heads_inv s" and r: "0 \<le> r"
  shows "(\<exists>j. select_degree r s = Inr (s\<lparr>k := j, num_flips := 0, num_heads := 0\<rparr>)
            \<and> heads_inv (s\<lparr>k := j, num_flips := 0, num_heads := 0\<rparr>))
       \<or> select_degree r s = Inr s"
proof -
  define a where "a = p_min s"
  define hi where "hi = arccos (sqrt a)"
  have a: "0 \<le> a" "a \<le> 1" "a < 1" and pm: "p_max s = 1" and k0: "0 \<le> k s"
    using inv by (simp_all add: heads_inv_def a_def)
  have hi: "0 \<le> hi" "hi \<le> pi / 2" using arccos_sqrt_facts [OF a(1,2)] by (simp_all add: hi_def)
  have sa: "- 1 \<le> sqrt a" using real_sqrt_ge_zero [OF a(1)] by linarith
  have "sqrt a < 1" using a by simp
  then have "arccos 1 < arccos (sqrt a)"
    by (intro arccos_less_arccos sa) simp_all
  then have hpos: "0 < hi" by (simp add: hi_def)
  define n1 where "n1 = (let n = py_int (pi / 2 / hi) in if n mod 2 = 0 then n + 1 else n)"
  have odd: "odd n1" by (simp add: n1_def Let_def) presburger
  have lo: "Option.bind (np_sqrt 1) np_arccos = Some 0"
    using arccos_sqrt_some [of 1] by simp
  have fk: "find_next_k a 1 (r * real_of_int (k s)) = Inr (find_next_k_loop 0 hi (r * real_of_int (k s)) n1)"
    using hpos
    by (simp add: find_next_k_def lo arccos_sqrt_some [OF a(1,2)] Let_def n1_def hi_def)
  show ?thesis
  proof (cases "find_next_k_loop 0 hi (r * real_of_int (k s)) n1")
    case None
    then have "select_degree r s = Inr s"
      by (simp add: select_degree_def pm a_def [symmetric] fk)
    then show ?thesis ..
  next
    case (Some j)
    from find_next_k_loop_Some [OF Some odd]
    have j: "r * real_of_int (k s) < real_of_int j" and lobe: "same_lobe 0 hi (2 * j + 1)" by blast+
    have "0 \<le> r * real_of_int (k s)" using r k0 by simp
    with j have j0: "0 \<le> j" by linarith
    then have n: "0 < 2 * j + 1" by linarith
    have top: "hi < pi / (2 * real_of_int (2 * j + 1))"
      by (rule same_lobe_from_zero [OF lobe hi(1) n])
    have "sqrt a \<le> sqrt ((a + 1) / 2)" using a by simp
    then have "arccos (sqrt ((a + 1) / 2)) \<le> hi"
      unfolding hi_def using a by (intro arccos_le_arccos sa) simp_all
    with top have "arccos (sqrt ((a + 1) / 2)) < pi / (2 * real_of_int (2 * j + 1))" by linarith
    then have "heads_inv (s\<lparr>k := j, num_flips := 0, num_heads := 0\<rparr>)"
      using inv j0 by (simp add: heads_inv_def a_def)
    moreover have "select_degree r s = Inr (s\<lparr>k := j, num_flips := 0, num_heads := 0\<rparr>)"
      by (simp add: select_degree_def pm a_def [symmetric] fk Some)
    ultimately show ?thesis by blast
  qed
qed

lemma update_interval_all_heads:
  assumes inv: "heads_inv s" and a: "0 < a" "a \<le> 2" and h: "0 < num_flips s"
  shows "\<exists>s'. update_interval clopper_pearson a s = Inr s' \<and> heads_inv s'"
proof -
  define h where "h = num_flips s"
  define L where "L = root h (a / 2)"
  define n where "n = 2 * k s + 1"
  define q where "q = (p_min s + 1) / 2"
  define pL where "pL = (cos (arccos (2 * L - 1) / (2 * real_of_int n)))\<^sup>2"
  have hpos: "0 < h" using h by (simp add: h_def)
  have pm: "p_max s = 1" and mn: "0 \<le> p_min s" "p_min s \<le> 1 - 1 / 10 ^ 15"
    and hd: "num_heads s = h" and k0: "0 \<le> k s"
    and lobe: "arccos (sqrt q) < pi / (2 * real_of_int n)"
    using inv by (simp_all add: heads_inv_def h_def n_def q_def)
  have n: "0 < n" using k0 by (simp add: n_def)
  have q: "0 \<le> q" "q \<le> 1" using mn by (simp_all add: q_def)
  have L: "0 \<le> L" "L \<le> 1"
    using a hpos by (simp_all add: L_def real_root_le_1_iff)
  have cp: "clopper_pearson (num_heads s) (num_flips s) a = (L, 1)"
    using hpos by (simp add: clopper_pearson_def hd h_def [symmetric] L_def)
  have i0: "invert_T2rootp L n q = Inr (Some pL)"
    unfolding pL_def by (rule invert_first_lobe [OF n L q lobe])
  have "invert_T2rootp 1 n q = Inr (Some ((cos (arccos (2 * 1 - 1) / (2 * real_of_int n)))\<^sup>2))"
    by (rule invert_first_lobe [OF n _ _ q lobe]) simp_all
  then have i1: "invert_T2rootp 1 n q = Inr (Some 1)" by simp
  have pL: "0 \<le> pL" "pL \<le> 1" by (simp_all add: pL_def abs_square_le_1)
  define s' where "s' = s\<lparr>p_min := py_max (p_min s) (Some (pL - 1 / 10 ^ 15)), p_max := 1\<rparr>"
  have up: "update_interval clopper_pearson a s = Inr s'"
    using pL
    by (simp add: update_interval_def cp Let_def q_def [symmetric] n_def [symmetric] i0 i1
          sorted2_def np_less_def pm py_min_def s'_def)
  have ge: "p_min s \<le> p_min s'" by (simp add: s'_def py_max_ge)
  have le: "p_min s' \<le> 1 - 1 / 10 ^ 15" using mn pL by (simp add: s'_def py_max_def)
  have "sqrt q \<le> sqrt ((p_min s' + 1) / 2)" using ge by (simp add: q_def)
  moreover have "- 1 \<le> sqrt q" using real_sqrt_ge_zero [OF q(1)] by linarith
  ultimately have "arccos (sqrt ((p_min s' + 1) / 2)) \<le> arccos (sqrt q)"
    using le by (intro arccos_le_arccos) simp_all
  with lobe have "arccos (sqrt ((p_min s' + 1) / 2)) < pi / (2 * real_of_int n)" by linarith
  moreover have "k s' = k s" "num_heads s' = num_heads s" "num_flips s' = num_flips s" "p_max s' = 1"
    by (simp_all add: s'_def)
  ultimately have "heads_inv s'"
    using ge le mn hd k0 by (simp add: heads_inv_def n_def h_def)
  with up show ?thesis by blast
qed

lemma all_heads_pass:
  assumes inv: "heads_inv s" and heads: "\<forall>i. rnd i < 1 / 2" and a: "0 < a" "a \<le> 2"
    and r: "0 \<le> r" and N: "0 < Nshots"
  shows "\<exists>s'. chebpe_iteration clopper_pearson rnd (1 / 2) eps a err_max nu r Nshots s = Inr s'
            \<and> heads_inv s'"
proof -
  from select_degree_all_heads [OF inv r]
  obtain s1 where sel: "select_degree r s = Inr s1" and inv1: "heads_inv s1"
    using inv by blast
  define m where "m = shots_of err_max nu eps Nshots s1"
  have m: "0 < m" using N by (simp add: m_def shots_of_def split: option.splits)
  have k1: "0 \<le> k s1" using inv1 by (simp add: heads_inv_def)
  have T2: "T2_of (1 / 2) s1 = Some (1 / 2)"
    by (simp add: T2_of_g g_half [OF k1])
  define s2 where "s2 = toss rnd (Some (1 / 2)) m s1"
  have s2: "s2 = s1\<lparr>num_heads := num_heads s1 + m, num_flips := num_flips s1 + m,
       queries := queries s1 + int m * (2 * k s1 + 1), draws := draws s1 + m\<rparr>"
    unfolding s2_def using heads
    by (subst toss_constant [where h = True]) (simp_all add: np_less_def)
  have inv2: "heads_inv s2" using inv1 by (simp add: s2 heads_inv_def)
  have f2: "0 < num_flips s2" using m by (simp add: s2)
  have step: "chebpe_iteration clopper_pearson rnd (1 / 2) eps a err_max nu r Nshots s =
      update_interval clopper_pearson a s2"
    by (simp only: chebpe_iteration_def sel Let_def sum.case m_def [symmetric] T2 s2_def)
  from update_interval_all_heads [OF inv2 a f2] show ?thesis unfolding step .
qed

lemma all_heads_forever:
  assumes heads: "\<forall>i. rnd i < 1 / 2" and a: "0 < a" "a \<le> 2"
    and r: "0 \<le> r" and N: "0 < Nshots" and eps: "eps * 2 < 1 / 10 ^ 15"
  shows "heads_inv s \<Longrightarrow>
     chebpe_loop clopper_pearson rnd (1 / 2) eps a err_max nu r Nshots fuel s = None"
proof (induction fuel arbitrary: s)
  case 0
  then show ?case using eps by (simp add: heads_inv_def)
next
  case (Suc fuel)
  from Suc.prems eps have run: "p_max s - p_min s > eps * 2" by (simp add: heads_inv_def)
  from all_heads_pass [OF Suc.prems heads a r N]
  obtain s' where "chebpe_iteration clopper_pearson rnd (1 / 2) eps a err_max nu r Nshots s = Inr s'"
    and "heads_inv s'" by blast
  with run Suc.IH show ?case by simp
qed

lemma budget_tiny: "iteration_budget (1 / 10 ^ 16) 2 = Inr 53"
  using iteration_budget_eq [of "1 / 10 ^ 16" 2 52] by simp

lemma heads_inv_init: "heads_inv init_state"
  using pi_gt_zero by (simp add: heads_inv_def init_state_def arccos_sqrt_half)

lemma all_heads_never_returns:
  "chebpe_unbounded clopper_pearson (\<lambda>i. 1 / 4) (1 / 2) (1 / 10 ^ 16) (1 / 20) 8 2 1 = None"
proof -
  have "chebpe_while clopper_pearson (\<lambda>i. 1 / 4) (1 / 2) (1 / 10 ^ 16) (1 / 20 / real_of_int 53) err_max 8 2 1 init_state = None"
    for err_max
  proof (rule ccontr)
    assume "chebpe_while clopper_pearson (\<lambda>i. 1 / 4) (1 / 2) (1 / 10 ^ 16) (1 / 20 / real_of_int 53) err_max 8 2 1 init_state \<noteq> None"
    then obtain x where "chebpe_while clopper_pearson (\<lambda>i. 1 / 4) (1 / 2) (1 / 10 ^ 16) (1 / 20 / real_of_int 53) err_max 8 2 1 init_state = Some x"
      by blast
    from chebpe_while_loop [OF this] obtain fuel where
      "chebpe_loop clopper_pearson (\<lambda>i. 1 / 4) (1 / 2) (1 / 10 ^ 16) (1 / 20 / real_of_int 53) err_max 8 2 1 fuel init_state = Some x" ..
    moreover have "chebpe_loop clopper_pearson (\<lambda>i. 1 / 4) (1 / 2) (1 / 10 ^ 16) (1 / 20 / real_of_int 53) err_max 8 2 1 fuel init_state = None"
      by (rule all_heads_forever [OF _ _ _ _ _ _ heads_inv_init]) simp_all
    ultimately show False by simp
  qed
  then show ?thesis unfolding chebpe_unbounded_def budget_tiny by (simp add: Let_def)
qed

lemma chebpe_fuel_unbounded:
  "chebpe ci rnd fuel p_target eps alpha nu r Nshots = Some x \<Longrightarrow>
     chebpe_unbounded ci rnd p_target eps alpha nu r Nshots = Some x"
  by (auto simp: chebpe_def chebpe_unbounded_def Let_def dest: chebpe_loop_while
           split: sum.splits if_splits option.splits)

text \<open>
  C1, as stated, fails twice over. Nothing in the loop counts passes against \<open>T\<close>:
  with \<open>eps = 0.3\<close> and a first toss showing tails the loop is still running after
  \<open>T = 1\<close> passes. And the loop need not stop at all: step 4(e) pads the new interval by
  \<open>10\<^sup>-\<^sup>1\<^sup>5\<close> on both sides, so with \<open>eps = 10\<^sup>-\<^sup>1\<^sup>6\<close>, \<open>p_target = 0.5\<close>,
  \<open>alpha = 0.05\<close>, \<open>Nshots = 1\<close> and a coin that always shows heads the upper end stays
  \<open>1\<close>, the lower end never exceeds \<open>1 - 10\<^sup>-\<^sup>1\<^sup>5\<close>, the width never falls to
  \<open>2 * eps\<close>, and \<open>chebpe\<close> never returns. (The upper end is \<open>1\<close> exactly at every pass:
  with all tosses heads the upper confidence limit is \<open>1\<close>, its angle \<open>arccos 1\<close> is
  \<open>0\<close>, and the degree is always chosen with the whole interval on the first lobe, so the
  inverter returns \<open>cos\<^sup>2 0 = 1\<close>. The lower end is a value \<open>cos\<^sup>2 \<theta> - 10\<^sup>-\<^sup>1\<^sup>5\<close>.)
\<close>

theorem chebpe_need_not_stop:
  "iteration_budget (3 / 10) 2 = Inr 1
   \<and> chebpe clopper_pearson (\<lambda>i. 9 / 10) 1 (1 / 2) (3 / 10) (1 / 20) 8 2 1 = None
   \<and> chebpe_unbounded clopper_pearson (\<lambda>i. 1 / 4) (1 / 2) (1 / 10 ^ 16) (1 / 20) 8 2 1 = None"
  using one_tail_exceeds_budget all_heads_never_returns by simp

text \<open>
  C1, amended. The budget \<open>T\<close> only divides \<open>alpha\<close>; the loop is bounded by nothing but
  its condition and can run for more than \<open>T\<close> passes, or for ever. Whenever \<open>chebpe\<close>
  returns, after however many passes, the final width \<open>p_max - p_min\<close>, twice the reported
  \<open>ci_width\<close>, is at most \<open>2 * eps\<close>.
\<close>

theorem chebpe_exit_width:
  "chebpe_unbounded ci rnd p_target eps alpha nu r Nshots = Some (Inr res) \<Longrightarrow>
     ci_width res * 2 \<le> 2 * eps"
  by (auto simp: chebpe_unbounded_def Let_def make_result_def
           dest!: chebpe_while_loop chebpe_loop_exit
           split: sum.splits if_splits option.splits)

theorem chebpe_exit_width_witness:
  "chebpe_unbounded clopper_pearson (\<lambda>i. 9 / 10) (1 / 2) (49 / 100) (1 / 20) 8 2 1 =
     Some (Inr (make_result (1 / 2) (49 / 100) (1 / 20) 8 2 1
       \<lparr>p_min = 0, p_max = 1 - 1 / 20 / 2 + 1 / 10 ^ 15, num_flips = 1, num_heads = 0, k = 0,
          queries = 1, draws = 1\<rparr>))
   \<and> ci_width (make_result (1 / 2) (49 / 100) (1 / 20) 8 2 1
       \<lparr>p_min = 0, p_max = 1 - 1 / 20 / 2 + 1 / 10 ^ 15, num_flips = 1, num_heads = 0, k = 0,
          queries = 1, draws = 1\<rparr>) * 2 \<le> 2 * (49 / 100)"
  by (rule conjI [OF chebpe_fuel_unbounded [OF run_one_tail]
                     chebpe_exit_width [OF chebpe_fuel_unbounded [OF run_one_tail]]])

subsection \<open>The integer part of \<open>2n\<theta>/\<pi>\<close> by sign changes\<close>

lemma sin_sign_lobe:
  fixes c :: int and y :: real
  assumes "real_of_int c * pi < y" "y < (real_of_int c + 1) * pi"
  shows "even c \<Longrightarrow> 0 < sin y" "odd c \<Longrightarrow> sin y < 0"
proof -
  define z where "z = y - real_of_int c * pi"
  have z: "0 < z" "z < pi" using assms by (simp_all add: z_def algebra_simps)
  have pos: "0 < sin z" by (rule sin_gt_zero [OF z])
  have "y = z + pi * real_of_int c" by (simp add: z_def)
  then have "sin y = sin (z + pi * real_of_int c)" by (rule arg_cong)
  also have "\<dots> = sin z * cos (pi * real_of_int c) + cos z * sin (pi * real_of_int c)"
    by (rule sin_add)
  also have "\<dots> = sin z * (if even c then 1 else - 1)" by simp
  finally have s: "sin y = sin z * (if even c then 1 else - 1)" .
  show "0 < sin y" if "even c" using that pos by (simp add: s)
  show "sin y < 0" if "odd c" using that pos by (simp add: s)
qed

lemma lobe_walk_floor:
  fixes psi :: real
  assumes psi: "0 < psi" "psi < pi"
  shows "u = sin (real m * psi) / sin psi \<Longrightarrow> v = sin (real (Suc m) * psi) / sin psi \<Longrightarrow>
     u \<noteq> 0 \<Longrightarrow> \<lfloor>real m * psi / pi\<rfloor> = c \<Longrightarrow> lobe_walk j (cos psi) u v c = Some r \<Longrightarrow>
     \<lfloor>real (m + j) * psi / pi\<rfloor> = r"
proof (induction j arbitrary: m u v c)
  case 0
  then show ?case by simp
next
  case (Suc j)
  have sp: "0 < sin psi" by (rule sin_gt_zero [OF psi])
  define y where "y = real m * psi"
  define y' where "y' = real (Suc m) * psi"
  have y': "y' = y + psi" by (simp add: y_def y'_def algebra_simps)
  from Suc.prems(5) have v0: "v \<noteq> 0" by (simp split: if_splits)
  define c' where "c' = (if u * v < 0 then c + 1 else c)"
  from Suc.prems(5) v0 have walk: "lobe_walk j (cos psi) v (2 * cos psi * v - u) c' = Some r"
    by (simp add: c'_def)
  have sy: "sin y \<noteq> 0" using Suc.prems(1,3) sp by (simp add: y_def)
  have sy': "sin y' \<noteq> 0" using Suc.prems(2) v0 sp by (simp add: y'_def)
  have fl: "real_of_int c \<le> y / pi" "y / pi < real_of_int c + 1"
    using Suc.prems(4) unfolding y_def by linarith+
  have lo: "real_of_int c * pi \<le> y" using fl(1) pi_gt_zero by (simp add: pos_le_divide_eq)
  have hi: "y < (real_of_int c + 1) * pi" using fl(2) pi_gt_zero by (simp add: pos_divide_less_eq)
  have "y \<noteq> real_of_int c * pi"
  proof
    assume "y = real_of_int c * pi"
    then have "sin y = sin (pi * real_of_int c)" by (simp add: mult.commute)
    with sy show False by simp
  qed
  with lo have lo': "real_of_int c * pi < y" by simp
  have ne: "y' \<noteq> (real_of_int c + 1) * pi"
  proof
    assume "y' = (real_of_int c + 1) * pi"
    then have "sin y' = sin (pi * real_of_int (c + 1))" by (simp add: mult.commute)
    with sy' show False by (simp only: sin_npi_int)
  qed
  have uv: "u * v < 0 \<longleftrightarrow> sin y * sin y' < 0"
  proof -
    have "u * v = (sin y * sin y') / (sin psi * sin psi)"
      by (simp add: Suc.prems(1,2) y_def y'_def)
    moreover have "0 < sin psi * sin psi" using sp by simp
    ultimately show ?thesis by (simp add: divide_less_0_iff)
  qed
  have c': "\<lfloor>y' / pi\<rfloor> = c'"
  proof (cases "y' < (real_of_int c + 1) * pi")
    case True
    have b: "real_of_int c * pi < y'" using lo' psi(1) by (simp add: y')
    have same: "0 < sin y * sin y'"
    proof (cases "even c")
      case True
      from sin_sign_lobe(1) [OF lo' hi True] sin_sign_lobe(1) [OF b \<open>y' < _\<close> True]
      show ?thesis by simp
    next
      case False
      from sin_sign_lobe(2) [OF lo' hi False] sin_sign_lobe(2) [OF b \<open>y' < _\<close> False]
      show ?thesis by (simp add: mult_neg_neg)
    qed
    then have "c' = c" using uv by (simp add: c'_def)
    moreover have "real_of_int c \<le> y' / pi" "y' / pi < real_of_int c + 1"
      using b True pi_gt_zero by (simp_all add: pos_le_divide_eq pos_divide_less_eq)
    then have "\<lfloor>y' / pi\<rfloor> = c" by linarith
    ultimately show ?thesis by simp
  next
    case False
    with ne have b: "(real_of_int c + 1) * pi < y'" by simp
    have t: "y' < (real_of_int c + 1 + 1) * pi" using hi psi(2) by (simp add: y' algebra_simps)
    have b1: "real_of_int (c + 1) * pi < y'" using b by simp
    have t1: "y' < (real_of_int (c + 1) + 1) * pi" using t by simp
    have diff: "sin y * sin y' < 0"
    proof (cases "even c")
      case True
      then have "odd (c + 1)" by simp
      from sin_sign_lobe(1) [OF lo' hi True] sin_sign_lobe(2) [OF b1 t1 this]
      show ?thesis by (simp add: mult_pos_neg)
    next
      case False
      then have "even (c + 1)" by simp
      from sin_sign_lobe(2) [OF lo' hi False] sin_sign_lobe(1) [OF b1 t1 this]
      show ?thesis by (simp add: mult_neg_pos)
    qed
    then have "c' = c + 1" using uv by (simp add: c'_def)
    moreover have "real_of_int (c + 1) \<le> y' / pi" "y' / pi < real_of_int (c + 1) + 1"
      using b1 t1 pi_gt_zero by (simp_all add: pos_le_divide_eq pos_divide_less_eq)
    then have "\<lfloor>y' / pi\<rfloor> = c + 1" by linarith
    ultimately show ?thesis by simp
  qed
  have next_v: "2 * cos psi * v - u = sin (real (Suc (Suc m)) * psi) / sin psi"
  proof -
    have a: "real (Suc (Suc m)) * psi = y' + psi" by (simp add: y'_def algebra_simps)
    have b: "y = y' - psi" by (simp add: y')
    have "sin (y' + psi) + sin (y' - psi) = 2 * cos psi * sin y'"
      by (simp add: sin_add sin_diff)
    then have e: "sin (real (Suc (Suc m)) * psi) = 2 * cos psi * sin y' - sin y"
      unfolding a b by linarith
    show ?thesis
      unfolding Suc.prems(1,2) e y_def [symmetric] y'_def [symmetric]
      by (simp add: diff_divide_distrib)
  qed
  have "\<lfloor>real (Suc m + j) * psi / pi\<rfloor> = r"
    by (rule Suc.IH [OF Suc.prems(2) next_v v0 c' [unfolded y'_def] walk])
  then show ?case by simp
qed

lemma lobe_index_floor:
  fixes p :: real
  assumes p: "0 < p" "p < 1" and n: "0 < n" and idx: "lobe_index n (2 * p - 1) = Some r"
  shows "\<lfloor>2 * real n * arccos (sqrt p) / pi\<rfloor> = r"
proof -
  define th where "th = arccos (sqrt p)"
  define psi where "psi = 2 * th"
  have s: "0 < sqrt p" "sqrt p < 1" using p by simp_all
  have m1: "- 1 < sqrt p" using s by linarith
  have "arccos (sqrt p) < arccos 0"
    by (rule arccos_less_arccos [OF _ s(1)]) (use s(2) in simp_all)
  then have th: "0 < th" "th < pi / 2"
    unfolding th_def using arccos_lt_bounded [OF m1 s(2)] by simp_all
  have psi: "0 < psi" "psi < pi" using th by (simp_all add: psi_def)
  have "cos th = sqrt p" unfolding th_def by (rule cos_arccos) (use m1 s(2) in linarith)+
  then have cpsi: "cos psi = 2 * p - 1"
    using p by (simp add: psi_def cos_double_cos)
  have sp: "sin psi \<noteq> 0" using sin_gt_zero [OF psi] by simp
  have u: "(1::real) = sin (real 1 * psi) / sin psi" using sp by simp
  have v: "2 * (2 * p - 1) = sin (real (Suc 1) * psi) / sin psi"
    using sp by (simp add: sin_double cpsi)
  have "0 \<le> psi / pi" "psi / pi < 1" using psi pi_gt_zero by simp_all
  then have "\<lfloor>psi / pi\<rfloor> = 0" by linarith
  then have c: "\<lfloor>real 1 * psi / pi\<rfloor> = 0" by simp
  from idx have walk: "lobe_walk (n - 1) (cos psi) 1 (2 * (2 * p - 1)) 0 = Some r"
    by (simp add: lobe_index_def cpsi)
  have "\<lfloor>real (1 + (n - 1)) * psi / pi\<rfloor> = r"
    by (rule lobe_walk_floor [OF psi u v _ c walk]) simp
  then show ?thesis using n by (simp add: psi_def th_def mult.assoc mult.left_commute)
qed

subsection \<open>A run of three passes: late on a falling lobe\<close>

lemma top_lobe_fifth:
  defines "v \<equiv> (cos (arccos (- 29 / 50) / 6))\<^sup>2"
  shows "109 / 125 < v" "v < 8729 / 10000"
proof -
  define phi where "phi = arccos (- 29 / 50 :: real)"
  define c where "c = cos (phi / 6)"
  have phi: "0 < phi" "phi < pi"
    using arccos_lt_bounded [of "- 29 / 50"] by (simp_all add: phi_def)
  have cphi: "cos phi = - 29 / 50" unfolding phi_def by (rule cos_arccos) simp_all
  have v: "v = c\<^sup>2" by (simp add: v_def c_def phi_def)
  have "cos (pi / 6) < cos (phi / 6)"
    by (subst cos_mono_less_eq) (use phi pi_gt_zero in simp_all)
  then have "sqrt 3 / 2 < c" by (simp add: cos_30 c_def)
  moreover have "0 \<le> sqrt 3 / 2" by simp
  ultimately have "(sqrt 3 / 2)\<^sup>2 < c\<^sup>2" by (intro power_strict_mono) simp_all
  then have v34: "3 / 4 < v" by (simp add: v power_divide)
  have "cos (3 * (phi / 6)) = 4 * c ^ 3 - 3 * c" unfolding c_def by (rule cos_treble_cos)
  then have "(cos (phi / 2))\<^sup>2 = (4 * c ^ 3 - 3 * c)\<^sup>2" by simp
  also have "\<dots> = v * (4 * v - 3)\<^sup>2" unfolding v by algebra
  finally have "v * (4 * v - 3)\<^sup>2 = (cos (phi / 2))\<^sup>2" by simp
  also have "\<dots> = (1 + cos phi) / 2" using cos_double_cos [of "phi / 2"] by simp
  finally have eq: "v * (4 * v - 3)\<^sup>2 = 21 / 100" by (simp add: cphi)
  show "v < 8729 / 10000"
  proof (rule ccontr)
    assume "\<not> v < 8729 / 10000"
    then have ge: "8729 / 10000 \<le> v" by simp
    then have "1229 / 2500 \<le> 4 * v - 3" by simp
    then have "(1229 / 2500)\<^sup>2 \<le> (4 * v - 3)\<^sup>2" by (intro power_mono) simp_all
    then have "(8729 / 10000) * (1229 / 2500)\<^sup>2 \<le> v * (4 * v - 3)\<^sup>2"
      using ge by (intro mult_mono) simp_all
    with eq show False by (simp add: power2_eq_square)
  qed
  show "109 / 125 < v"
  proof (rule ccontr)
    assume "\<not> 109 / 125 < v"
    then have le: "v \<le> 109 / 125" by simp
    then have "4 * v - 3 \<le> 61 / 125" "0 \<le> 4 * v - 3" using v34 by simp_all
    then have "(4 * v - 3)\<^sup>2 \<le> (61 / 125)\<^sup>2" by (intro power_mono) simp_all
    then have "v * (4 * v - 3)\<^sup>2 \<le> (109 / 125) * (61 / 125)\<^sup>2"
      using le v34 by (intro mult_mono) simp_all
    with eq show False by (simp add: power2_eq_square)
  qed
qed

lemma lobe_index_13_873: "lobe_index 13 (2 * (873 / 1000) - 1) = Some 3"
  by (simp add: lobe_index_def eval_nat_numeral)

lemma lobe_index_13_789: "lobe_index 13 (2 * (789 / 1000) - 1) = Some 3"
  by (simp add: lobe_index_def eval_nat_numeral)

lemma lobe_index_17_872: "lobe_index 17 (2 * (109 / 125) - 1) = Some 3"
  by (simp add: lobe_index_def eval_nat_numeral)

lemma lobe_index_17_790: "lobe_index 17 (2 * (79 / 100) - 1) = Some 5"
  by (simp add: lobe_index_def eval_nat_numeral)

lemma arccos_sqrt_mono:
  assumes "0 \<le> p" "p \<le> q" "q \<le> 1"
  shows "arccos (sqrt q) \<le> arccos (sqrt p)"
proof -
  have "- 1 \<le> sqrt p" using real_sqrt_ge_zero [OF assms(1)] by linarith
  moreover have "sqrt p \<le> sqrt q" using assms(2) by simp
  moreover have "sqrt q \<le> 1" using assms(3) by simp
  ultimately show ?thesis by (rule arccos_le_arccos)
qed

lemma lobe_13_angles:
  assumes a: "789 / 1000 \<le> a" "a \<le> 79 / 100" and b: "109 / 125 \<le> b" "b \<le> 873 / 1000"
  shows "3 * pi \<le> 26 * arccos (sqrt b)" "26 * arccos (sqrt a) < 4 * pi"
    "34 * arccos (sqrt b) < 4 * pi" "5 * pi \<le> 34 * arccos (sqrt a)"
    "arccos (sqrt b) < arccos (sqrt a)" "0 \<le> arccos (sqrt b)"
proof -
  have f1: "\<lfloor>2 * real 13 * arccos (sqrt (873 / 1000)) / pi\<rfloor> = 3"
    by (rule lobe_index_floor [OF _ _ _ lobe_index_13_873]) simp_all
  have f2: "\<lfloor>2 * real 13 * arccos (sqrt (789 / 1000)) / pi\<rfloor> = 3"
    by (rule lobe_index_floor [OF _ _ _ lobe_index_13_789]) simp_all
  have f3: "\<lfloor>2 * real 17 * arccos (sqrt (109 / 125)) / pi\<rfloor> = 3"
    by (rule lobe_index_floor [OF _ _ _ lobe_index_17_872]) simp_all
  have f4: "\<lfloor>2 * real 17 * arccos (sqrt (79 / 100)) / pi\<rfloor> = 5"
    by (rule lobe_index_floor [OF _ _ _ lobe_index_17_790]) simp_all
  from f1 have "3 \<le> 2 * real 13 * arccos (sqrt (873 / 1000)) / pi" by linarith
  then have g1: "3 * pi \<le> 26 * arccos (sqrt (873 / 1000))"
    using pi_gt_zero by (simp add: pos_le_divide_eq)
  from f2 have "2 * real 13 * arccos (sqrt (789 / 1000)) / pi < 4" by linarith
  then have g2: "26 * arccos (sqrt (789 / 1000)) < 4 * pi"
    using pi_gt_zero by (simp add: pos_divide_less_eq)
  from f3 have "2 * real 17 * arccos (sqrt (109 / 125)) / pi < 4" by linarith
  then have g3: "34 * arccos (sqrt (109 / 125)) < 4 * pi"
    using pi_gt_zero by (simp add: pos_divide_less_eq)
  from f4 have "5 \<le> 2 * real 17 * arccos (sqrt (79 / 100)) / pi" by linarith
  then have g4: "5 * pi \<le> 34 * arccos (sqrt (79 / 100))"
    using pi_gt_zero by (simp add: pos_le_divide_eq)
  have m1: "arccos (sqrt (873 / 1000)) \<le> arccos (sqrt b)"
    using b by (intro arccos_sqrt_mono) simp_all
  have m2: "arccos (sqrt a) \<le> arccos (sqrt (789 / 1000))"
    using a by (intro arccos_sqrt_mono) simp_all
  have m3: "arccos (sqrt b) \<le> arccos (sqrt (109 / 125))"
    using b by (intro arccos_sqrt_mono) simp_all
  have m4: "arccos (sqrt (79 / 100)) \<le> arccos (sqrt a)"
    using a by (intro arccos_sqrt_mono) simp_all
  show "3 * pi \<le> 26 * arccos (sqrt b)" using g1 m1 by linarith
  show "26 * arccos (sqrt a) < 4 * pi" using g2 m2 by linarith
  show l3: "34 * arccos (sqrt b) < 4 * pi" using g3 m3 by linarith
  show l4: "5 * pi \<le> 34 * arccos (sqrt a)" using g4 m4 by linarith
  show "arccos (sqrt b) < arccos (sqrt a)" using l3 l4 pi_gt_zero by linarith
  show "0 \<le> arccos (sqrt b)" using b by (intro arccos_sqrt_facts(1)) simp_all
qed

lemma find_next_k_thirteen:
  assumes a: "789 / 1000 \<le> a" "a \<le> 79 / 100" and b: "109 / 125 \<le> b" "b \<le> 873 / 1000"
    and mk: "0 \<le> mk" "mk < 6"
  shows "find_next_k a b mk = Inr (Some 6)"
proof -
  define lo where "lo = arccos (sqrt b)"
  define hi where "hi = arccos (sqrt a)"
  define ratio where "ratio = pi / 2 / (hi - lo)"
  define n1 where "n1 = (let n = py_int ratio in if n mod 2 = 0 then n + 1 else n)"
  note ang = lobe_13_angles [OF a b, folded lo_def hi_def]
  have a01: "0 \<le> a" "a \<le> 1" and b01: "0 \<le> b" "b \<le> 1" using a b by linarith+
  have d: "0 < hi - lo" using ang(5) by simp
  have w1: "13 * (hi - lo) < pi / 2" using ang(1,2) by (simp add: algebra_simps)
  have w2: "pi / 2 < 17 * (hi - lo)" using ang(3,4) by (simp add: algebra_simps)
  have r1: "13 < ratio"
    unfolding ratio_def pos_less_divide_eq [OF d] by (rule w1)
  have r2: "ratio < 17"
    unfolding ratio_def pos_divide_less_eq [OF d] by (rule w2)
  have "py_int ratio = \<lfloor>ratio\<rfloor>" using r1 by (simp add: py_int_def)
  moreover have "13 \<le> \<lfloor>ratio\<rfloor>" "\<lfloor>ratio\<rfloor> \<le> 16" using r1 r2 by linarith+
  ultimately have n1: "n1 = 13 \<or> n1 = 15 \<or> n1 = 17"
    unfolding n1_def Let_def by presburger
  have fl: "\<lfloor>x\<rfloor> = c" if "real_of_int c \<le> x" "x < real_of_int c + 1" for x :: real and c :: int
    using that by linarith
  have x13lo: "3 \<le> 2 * real_of_int 13 * lo / pi" "2 * real_of_int 13 * lo / pi < 4"
    using ang(1,2,5) pi_gt_zero by (simp_all add: pos_le_divide_eq pos_divide_less_eq)
  have x13hi: "3 \<le> 2 * real_of_int 13 * hi / pi" "2 * real_of_int 13 * hi / pi < 4"
    using ang(1,2,5) pi_gt_zero by (simp_all add: pos_le_divide_eq pos_divide_less_eq)
  have "\<lfloor>26 * lo / pi\<rfloor> = 3" "\<lfloor>26 * hi / pi\<rfloor> = 3"
    using x13lo x13hi by (simp_all add: floor_eq_iff)
  then have s13: "same_lobe lo hi 13"
    using x13lo x13hi by (simp add: same_lobe_def py_int_def)
  have y15: "15 * lo < 2 * pi" "2 * pi \<le> 15 * hi" "0 \<le> lo"
    using ang(3,4,6) pi_gt_zero by linarith+
  have x15lo: "0 \<le> 2 * real_of_int 15 * lo / pi" "2 * real_of_int 15 * lo / pi < 4"
    using y15 pi_gt_zero by (simp_all add: pos_divide_less_eq)
  have x15hi: "4 \<le> 2 * real_of_int 15 * hi / pi"
    using y15 pi_gt_zero by (simp add: pos_le_divide_eq)
  have "\<lfloor>30 * lo / pi\<rfloor> < 4" "4 \<le> \<lfloor>30 * hi / pi\<rfloor>"
    using x15lo x15hi by (simp_all add: floor_less_iff le_floor_iff)
  then have "\<lfloor>30 * lo / pi\<rfloor> \<noteq> \<lfloor>30 * hi / pi\<rfloor>" by linarith
  then have n15: "\<not> same_lobe lo hi 15"
    using x15lo x15hi by (simp add: same_lobe_def py_int_def)
  have n17: "\<not> same_lobe lo hi 17"
    by (rule same_lobe_too_wide [OF ang(6) [folded lo_def] ang(5)]) (use r2 in \<open>simp add: ratio_def\<close>)
  have l13: "find_next_k_loop lo hi mk 13 = Some 6"
    using mk s13 by (subst find_next_k_loop_unfold) simp
  have l15: "find_next_k_loop lo hi mk 15 = Some 6"
    using mk n15 l13 by (subst find_next_k_loop_unfold) simp
  have l17: "find_next_k_loop lo hi mk 17 = Some 6"
    using mk n17 l15 by (subst find_next_k_loop_unfold) simp
  have "find_next_k a b mk = Inr (find_next_k_loop lo hi mk n1)"
    using d
    by (simp add: find_next_k_def arccos_sqrt_some [OF a01] arccos_sqrt_some [OF b01]
          Let_def n1_def ratio_def lo_def hi_def)
  with n1 l13 l15 l17 show ?thesis by auto
qed

lemma late_run_pass_1:
  assumes cpH: "ci 50 50 a = (79 / 100, 1)" and err: "1 / 10 \<le> err"
  shows "chebpe_iteration ci (\<lambda>i. 1 / 2) (9 / 10) (1 / 50) a err (1 / 4) 2 50 init_state =
     Inr \<lparr>p_min = 79 / 100 - 1 / 10 ^ 15, p_max = 1, num_flips = 50, num_heads = 50, k = 0,
          queries = 50, draws = 50\<rparr>"
proof -
  define mid where
    "mid = \<lparr>p_min = 0, p_max = 1, num_flips = 50, num_heads = 50, k = 0, queries = 50, draws = 50\<rparr>"
  have sel: "select_degree 2 init_state = Inr init_state"
    by (simp add: select_degree_def init_state_def find_next_k_unit)
  have gap: "gap_of init_state = Some 1"
    by (simp add: gap_of_g init_state_def g_1)
  have w: "p_max init_state - p_min init_state = 1" by (simp add: init_state_def)
  have sh: "shots_of err (1 / 4) (1 / 50) 50 init_state = 50"
    using err by (simp add: shots_of_def gap np_div_less_def w)
  have T2: "T2_of (9 / 10) init_state = Some (9 / 10)"
    by (simp add: T2_of_degree_one init_state_def)
  have ts: "toss (\<lambda>i. 1 / 2) (Some (9 / 10)) 50 init_state = mid"
    by (subst toss_constant [where h = True]) (simp_all add: np_less_def init_state_def mid_def)
  have step: "chebpe_iteration ci (\<lambda>i. 1 / 2) (9 / 10) (1 / 50) a err (1 / 4) 2 50 init_state =
      update_interval ci a mid"
    by (simp only: chebpe_iteration_def sel Let_def sum.case sh T2 ts)
  have i0: "invert_T2rootp (79 / 100) 1 (1 / 2) = Inr (Some (79 / 100))"
    by (rule invert_degree_one) simp_all
  have i1: "invert_T2rootp 1 1 (1 / 2) = Inr (Some 1)"
    by (rule invert_degree_one) simp_all
  have "update_interval ci a mid =
     Inr \<lparr>p_min = 79 / 100 - 1 / 10 ^ 15, p_max = 1, num_flips = 50, num_heads = 50, k = 0,
          queries = 50, draws = 50\<rparr>"
    by (simp add: mid_def Let_def update_interval_def cpH i0 i1 sorted2_def np_less_def
          py_max_def py_min_def)
  with step show ?thesis by simp
qed

lemma late_run_pass_2:
  assumes cpT: "ci 0 50 a = (0, 21 / 100)" and err: "1 / 10 \<le> err"
    and q: "3 / 4 < q" "q \<le> 79 / 100"
  shows "chebpe_iteration ci (\<lambda>i. 1 / 2) (9 / 10) (1 / 50) a err (1 / 4) 2 50
       \<lparr>p_min = q, p_max = 1, num_flips = 50, num_heads = 50, k = 0,
          queries = 50, draws = 50\<rparr> =
     Inr \<lparr>p_min = q, p_max = (cos (arccos (- 29 / 50) / 6))\<^sup>2 + 1 / 10 ^ 15,
          num_flips = 50, num_heads = 0, k = 1, queries = 200, draws = 100\<rparr>"
proof -
  define s1 where
    "s1 = \<lparr>p_min = q, p_max = 1, num_flips = 50, num_heads = 50, k = 0,
          queries = 50, draws = 50\<rparr>"
  define s1' where
    "s1' = \<lparr>p_min = q, p_max = 1, num_flips = 0, num_heads = 0, k = 1,
          queries = 50, draws = 50\<rparr>"
  define mid where
    "mid = \<lparr>p_min = q, p_max = 1, num_flips = 50, num_heads = 0, k = 1,
          queries = 200, draws = 100\<rparr>"
  define v :: real where "v = (cos (arccos (- 29 / 50) / 6))\<^sup>2"
  note vb = top_lobe_fifth [folded v_def]
  have q9: "q \<le> 9 / 10" using q by simp
  have fk: "find_next_k q 1 (2 * real_of_int 0) = Inr (Some 1)"
    using q by (intro find_next_k_top) simp_all
  have sel: "select_degree 2 s1 = Inr s1'"
    by (simp add: select_degree_def s1_def s1'_def fk [simplified])
  have gap: "gap_of s1' = Some (g 3 1 - g 3 q)"
    using q by (simp add: gap_of_g s1'_def)
  note gb = g_3_top [OF q(1) q9]
  have w: "p_max s1' - p_min s1' = 1 - q" by (simp add: s1'_def)
  have "1 / 200 \<le> err * (1 - q) / (g 3 1 - g 3 q)"
  proof -
    have "1 / 200 \<le> (1 / 10) * (21 / 100 :: real)" by simp
    also have "\<dots> \<le> err * (1 - q)" using err q by (intro mult_mono) simp_all
    also have "\<dots> \<le> err * (1 - q) / (g 3 1 - g 3 q)"
    proof -
      have "0 \<le> err * (1 - q)" using err q by simp
      then have "err * (1 - q) * (g 3 1 - g 3 q) \<le> err * (1 - q) * 1"
        using gb(2) by (intro mult_left_mono)
      then show ?thesis using gb(1) by (simp add: pos_le_divide_eq)
    qed
    finally show ?thesis .
  qed
  then have sh: "shots_of err (1 / 4) (1 / 50) 50 s1' = 50"
    using gb(1) by (simp add: shots_of_def gap np_div_less_def w)
  have T2: "T2_of (9 / 10) s1' = Some (81 / 250)"
    by (simp add: T2_of_g s1'_def g_3 power2_eq_square)
  have ts: "toss (\<lambda>i. 1 / 2) (Some (81 / 250)) 50 s1' = mid"
    by (subst toss_constant [where h = False]) (simp_all add: np_less_def s1'_def mid_def)
  have step: "chebpe_iteration ci (\<lambda>i. 1 / 2) (9 / 10) (1 / 50) a err (1 / 4) 2 50 s1 =
      update_interval ci a mid"
    by (simp only: chebpe_iteration_def sel Let_def sum.case sh T2 ts)
  have h01: "0 \<le> (q + 1) / 2" "(q + 1) / 2 \<le> 1" using q by simp_all
  have hint: "arccos (sqrt ((q + 1) / 2)) < pi / (2 * real_of_int 3)"
    using arccos_sqrt_less_iff(1) [OF h01, of "pi / 6"] pi_gt_zero q
    by (simp add: cos_sq_pi_6)
  have i0: "invert_T2rootp 0 3 ((q + 1) / 2) = Inr (Some (3 / 4))"
    using invert_first_lobe [OF _ _ _ h01 hint, of 0] by (simp add: cos_sq_pi_6)
  have i1: "invert_T2rootp (21 / 100) 3 ((q + 1) / 2) = Inr (Some v)"
    using invert_first_lobe [OF _ _ _ h01 hint, of "21 / 100"] by (simp add: v_def)
  have "update_interval ci a mid =
     Inr \<lparr>p_min = q, p_max = v + 1 / 10 ^ 15,
          num_flips = 50, num_heads = 0, k = 1, queries = 200, draws = 100\<rparr>"
    using vb q
    by (simp add: mid_def Let_def update_interval_def cpT i0 i1 sorted2_def np_less_def
          py_max_def py_min_def)
  with step show ?thesis by (simp add: s1_def v_def)
qed

lemma late_run_trace:
  assumes cpH: "ci 50 50 a = (79 / 100, 1)" and cpT: "ci 0 50 a = (0, 21 / 100)"
    and err: "1 / 10 \<le> err"
  shows "chebpe_trace ci (\<lambda>i. 1 / 2) (9 / 10) (1 / 50) a err (1 / 4) 2 50 (Suc (Suc 0)) init_state =
     [init_state,
      \<lparr>p_min = 79 / 100 - 1 / 10 ^ 15, p_max = 1, num_flips = 50, num_heads = 50, k = 0,
          queries = 50, draws = 50\<rparr>,
      \<lparr>p_min = 79 / 100 - 1 / 10 ^ 15, p_max = (cos (arccos (- 29 / 50) / 6))\<^sup>2 + 1 / 10 ^ 15,
          num_flips = 50, num_heads = 0, k = 1, queries = 200, draws = 100\<rparr>]"
proof -
  have w: "p_max init_state - p_min init_state = 1" by (simp add: init_state_def)
  note p1 = late_run_pass_1 [of ci a err, OF cpH err]
  note p2 = late_run_pass_2 [of ci a err "79 / 100 - 1 / 10 ^ 15", OF cpT err]
  show ?thesis using p2 by (simp add: w p1)
qed

lemma late_run_third_pass:
  fixes err :: real
  defines "v \<equiv> (cos (arccos (- 29 / 50) / 6))\<^sup>2"
  defines "s2 \<equiv> \<lparr>p_min = 79 / 100 - 1 / 10 ^ 15, p_max = v + 1 / 10 ^ 15,
          num_flips = 50, num_heads = 0, k = 1, queries = 200, draws = 100\<rparr>"
  defines "s2' \<equiv> \<lparr>p_min = 79 / 100 - 1 / 10 ^ 15, p_max = v + 1 / 10 ^ 15,
          num_flips = 0, num_heads = 0, k = 6, queries = 200, draws = 100\<rparr>"
  defines "gp \<equiv> g 13 (v + 1 / 10 ^ 15) - g 13 (79 / 100 - 1 / 10 ^ 15)"
  assumes err: "1 / 10 \<le> err"
  shows "(1 / 50) * 2 < p_max s2 - p_min s2" "select_degree 2 s2 = Inr s2'"
    "gap_of s2' = Some gp" "gp < 0" "shots_of err (1 / 4) (1 / 50) 50 s2' = 1"
    "\<not> err * (p_max s2' - p_min s2') / \<bar>gp\<bar> \<le> (1 / 4) * (1 / 50)"
proof -
  define q :: real where "q = 79 / 100 - 1 / 10 ^ 15"
  define b where "b = v + 1 / 10 ^ 15"
  note vb = top_lobe_fifth [folded v_def]
  have q: "789 / 1000 \<le> q" "q \<le> 79 / 100" by (simp_all add: q_def)
  have b: "109 / 125 \<le> b" "b \<le> 873 / 1000" using vb by (simp_all add: b_def)
  have q01: "0 \<le> q" "q \<le> 1" and b01: "0 \<le> b" "b \<le> 1" using q b by linarith+
  show "(1 / 50) * 2 < p_max s2 - p_min s2" using vb by (simp add: s2_def)
  have fk: "find_next_k q b (2 * real_of_int 1) = Inr (Some 6)"
    by (rule find_next_k_thirteen [OF q b]) simp_all
  show "select_degree 2 s2 = Inr s2'"
    using fk by (simp add: select_degree_def s2_def s2'_def q_def b_def)
  show gap: "gap_of s2' = Some gp"
    using q01 b01 by (simp add: gap_of_g s2'_def gp_def q_def b_def)
  have gpe: "gp = g 13 b - g 13 q" by (simp only: gp_def b_def q_def)
  define lo where "lo = arccos (sqrt b)"
  define hi where "hi = arccos (sqrt q)"
  note ang = lobe_13_angles [OF q b, folded lo_def hi_def]
  note fq = arccos_sqrt_facts [OF q01, folded hi_def]
  note fb = arccos_sqrt_facts [OF b01, folded lo_def]
  have gq: "g 13 q = (cos (real_of_int 13 * hi))\<^sup>2"
    using g_at_angle [of 13 hi] fq by simp
  have gb: "g 13 b = (cos (real_of_int 13 * lo))\<^sup>2"
    using g_at_angle [of 13 lo] fb by simp
  have "(cos (real_of_int 13 * lo))\<^sup>2 < (cos (real_of_int 13 * hi))\<^sup>2"
    by (rule cos_sq_strict_lobe(2) [where t = 3]) (use ang in simp_all)
  then have "g 13 b < g 13 q" by (simp only: gq gb)
  then show neg: "gp < 0" unfolding gpe by simp
  have w: "41 / 500 \<le> b - q" using q b by linarith
  have num: "41 / 5000 \<le> err * (b - q)"
  proof -
    have "41 / 5000 = (1 / 10) * (41 / 500 :: real)" by simp
    also have "\<dots> \<le> err * (b - q)" using err w by (intro mult_mono) simp_all
    finally show ?thesis .
  qed
  have width: "p_max s2' - p_min s2' = b - q" by (simp add: s2'_def b_def q_def)
  have nonpos: "err * (b - q) / gp \<le> 0" using num neg by (simp add: divide_nonneg_neg)
  have late: "err * (b - q) / gp < 1 / 4 * (1 / 50)"
    by (rule le_less_trans [OF nonpos]) simp
  have "np_div_less (err * (p_max s2' - p_min s2')) gp (1 / 4 * (1 / 50))"
    unfolding np_div_less_def width using neg late by (simp only: if_False less_irrefl) simp
  then show "shots_of err (1 / 4) (1 / 50) 50 s2' = 1"
    by (simp only: shots_of_def gap option.case if_True)
  have unit: "0 \<le> g 13 q" "g 13 q \<le> 1" "0 \<le> g 13 b" "g 13 b \<le> 1"
    by (simp_all add: gq gb abs_square_le_1)
  then have abs1: "\<bar>gp\<bar> \<le> 1" "0 < \<bar>gp\<bar>"
    using neg unfolding gpe by linarith+
  have "err * (b - q) * \<bar>gp\<bar> \<le> err * (b - q) * 1"
    using abs1(1) num by (intro mult_left_mono) simp_all
  then have "err * (b - q) \<le> err * (b - q) / \<bar>gp\<bar>"
    using abs1(2) by (simp add: pos_le_divide_eq)
  with num have "1 / 200 < err * (b - q) / \<bar>gp\<bar>" by linarith
  then show "\<not> err * (p_max s2' - p_min s2') / \<bar>gp\<bar> \<le> (1 / 4) * (1 / 50)"
    by (simp add: width)
qed

lemma update_interval_total:
  "\<exists>lo hi. update_interval ci a s = Inr (s\<lparr>p_min := lo, p_max := hi\<rparr>)"
proof -
  have "2 * k s + 1 \<noteq> 0" by presburger
  then show ?thesis
    by (auto simp: update_interval_def invert_T2rootp_def Let_def split: prod.splits)
qed

lemma chebpe_iteration_draws:
  assumes "select_degree r s = Inr s1"
  shows "\<exists>s'. chebpe_iteration ci rnd p_target eps a err nu r Nshots s = Inr s'
            \<and> draws s' = draws s1 + shots_of err nu eps Nshots s1"
proof -
  define s2 where "s2 = toss rnd (T2_of p_target s1) (shots_of err nu eps Nshots s1) s1"
  from update_interval_total [of ci a s2] obtain lo hi where
    "update_interval ci a s2 = Inr (s2\<lparr>p_min := lo, p_max := hi\<rparr>)" by blast
  then show ?thesis
    using assms by (simp add: chebpe_iteration_def Let_def s2_def [symmetric]) (simp add: s2_def toss_draws)
qed

lemma budget_1_50: "iteration_budget (1 / 50) 2 = Inr 5"
  using iteration_budget_eq [of "1 / 50" 2 4] by simp

lemma clopper_pearson_all_agree_5:
  fixes x :: real
  assumes "0 \<le> x"
  shows "clopper_pearson 50 50 (10 * x ^ 50 / real_of_int 5) = (x, 1)"
    "clopper_pearson 0 50 (10 * x ^ 50 / real_of_int 5) = (0, 1 - x)"
proof -
  have "root 50 (x ^ 50) = x" using assms by (intro real_root_power_cancel) simp_all
  then show "clopper_pearson 50 50 (10 * x ^ 50 / real_of_int 5) = (x, 1)"
    "clopper_pearson 0 50 (10 * x ^ 50 / real_of_int 5) = (0, 1 - x)"
    by (simp_all add: clopper_pearson_def)
qed

text \<open>
  C4. The notebook describes the late condition with the absolute gap
  \<open>|T\<^sup>2\<^sub>n(\<surd>p_max) - T\<^sup>2\<^sub>n(\<surd>p_min)|\<close>; step 4(b) of the code divides by the signed
  difference. On a lobe where the statistic falls the quotient is negative, hence below
  \<open>nu * eps\<close>, and the pass is late whatever the test with the absolute gap says.

  The run: \<open>p_target = 0.9\<close>, \<open>eps = 0.02\<close> (so \<open>T = 5\<close>), \<open>alpha = 10 * 0.79\<^sup>5\<^sup>0\<close>,
  \<open>nu = 0.25\<close>, \<open>r = 2\<close>, \<open>Nshots = 50\<close>, every random number equal to \<open>1/2\<close>. The first
  pass, at degree \<open>1\<close>, sees \<open>50\<close> heads and leaves \<open>[0.79 - 10\<^sup>-\<^sup>1\<^sup>5, 1]\<close>; the second, at
  degree \<open>3\<close>, sees \<open>50\<close> tails and leaves \<open>[0.79 - 10\<^sup>-\<^sup>1\<^sup>5, 0.8726\<dots>]\<close>; the third
  moves to \<open>k = 6\<close>, degree \<open>13\<close>, on whose fourth lobe the statistic falls from about
  \<open>0.99\<close> to about \<open>0.001\<close> across the interval. The gap is negative, the pass takes
  one shot (the coin counter goes from \<open>100\<close> to \<open>101\<close>), and the test with the
  absolute gap is false, with \<open><\<close> as with \<open>\<le>\<close>: it asks for \<open>50\<close> shots.

  The quantities behind the branches of the third pass: the search for the degree starts
  from \<open>n = 15\<close>, the quotient \<open>(\<pi>/2)/(\<theta>\<^sub>h\<^sub>i - \<theta>\<^sub>l\<^sub>o)\<close> being about \<open>14.14\<close>; the
  values of \<open>2n\<theta>/\<pi>\<close> at the two ends are about \<open>3.48\<close> and \<open>4.55\<close> for \<open>n = 15\<close>,
  and \<open>3.02\<close> and \<open>3.94\<close> for \<open>n = 13\<close>; the gap is about \<open>-0.990\<close>; \<open>err_max\<close> is
  at least \<open>0.1\<close> and the width \<open>0.0826\<dots>\<close>, so the quotient with the absolute gap is
  at least \<open>0.0083\<close>, against \<open>nu * eps = 0.005\<close>.
\<close>

theorem negative_gap_taken_as_late:
  "(let tr = chebpe_run_trace clopper_pearson (\<lambda>i. 1 / 2) 2 (9 / 10) (1 / 50)
               (10 * (79 / 100) ^ 50) (1 / 4) 2 50;
        st = last tr;
        err_max = max_error_cp clopper_pearson (10 * (79 / 100) ^ 50 / 5) 50
    in length tr = 3 \<and> p_min st = 79 / 100 - 1 / 10 ^ 15 \<and> k st = 1
       \<and> (1 / 50) * 2 < p_max st - p_min st
       \<and> (case select_degree 2 st of
            Inl e \<Rightarrow> False
          | Inr st' \<Rightarrow> k st' = 6 \<and>
              (case gap_of st' of
                 None \<Rightarrow> False
               | Some gp \<Rightarrow> gp < 0 \<and> shots_of err_max (1 / 4) (1 / 50) 50 st' = 1
                    \<and> \<not> err_max * (p_max st' - p_min st') / \<bar>gp\<bar> \<le> (1 / 4) * (1 / 50))))
   \<and> draws (last (chebpe_run_trace clopper_pearson (\<lambda>i. 1 / 2) 3 (9 / 10) (1 / 50)
               (10 * (79 / 100) ^ 50) (1 / 4) 2 50)) = 100 + 1"
proof -
  define a :: real where "a = 10 * (79 / 100) ^ 50 / real_of_int 5"
  define err where "err = max_error_cp clopper_pearson a 50"
  define v :: real where "v = (cos (arccos (- 29 / 50) / 6))\<^sup>2"
  define s1 where "s1 = \<lparr>p_min = 79 / 100 - 1 / 10 ^ 15, p_max = 1, num_flips = 50, num_heads = 50, k = 0,
          queries = 50, draws = 50\<rparr>"
  define s2 where "s2 = \<lparr>p_min = 79 / 100 - 1 / 10 ^ 15, p_max = v + 1 / 10 ^ 15,
          num_flips = 50, num_heads = 0, k = 1, queries = 200, draws = 100\<rparr>"
  define s2' where "s2' = \<lparr>p_min = 79 / 100 - 1 / 10 ^ 15, p_max = v + 1 / 10 ^ 15,
          num_flips = 0, num_heads = 0, k = 6, queries = 200, draws = 100\<rparr>"
  define gp where "gp = g 13 (v + 1 / 10 ^ 15) - g 13 (79 / 100 - 1 / 10 ^ 15)"
  have cpH: "clopper_pearson 50 50 a = (79 / 100, 1)"
    unfolding a_def by (subst clopper_pearson_all_agree_5(1)) simp_all
  have cpT: "clopper_pearson 0 50 a = (0, 21 / 100)"
    unfolding a_def by (subst clopper_pearson_all_agree_5(2)) simp_all
  have err: "1 / 10 \<le> err"
    using max_error_cp_ge [of 0 50 clopper_pearson a] by (simp add: err_def cpT)
  note tr = late_run_trace [of clopper_pearson a err, OF cpH cpT err, folded v_def, folded s1_def s2_def]
  note third = late_run_third_pass [of err, OF err, folded v_def, folded s2_def s2'_def gp_def]
  have two: "(2::nat) = Suc (Suc 0)" by simp
  have t1: "chebpe_run_trace clopper_pearson (\<lambda>i. 1 / 2) 2 (9 / 10) (1 / 50) (10 * (79 / 100) ^ 50) (1 / 4) 2 50 =
      chebpe_trace clopper_pearson (\<lambda>i. 1 / 2) (9 / 10) (1 / 50) a err (1 / 4) 2 50 2 init_state"
    by (simp add: chebpe_run_trace_def budget_1_50 a_def err_def)
  have t2: "chebpe_run_trace clopper_pearson (\<lambda>i. 1 / 2) 2 (9 / 10) (1 / 50) (10 * (79 / 100) ^ 50) (1 / 4) 2 50 =
      [init_state, s1, s2]"
    unfolding t1 by (simp only: two tr)
  have e: "max_error_cp clopper_pearson (10 * (79 / 100) ^ 50 / 5) 50 = err"
    by (simp add: err_def a_def)
  have st: "p_min s2 = 79 / 100 - 1 / 10 ^ 15" "k s2 = 1" "k s2' = 6" by (simp_all add: s2_def s2'_def)
  have c1: "(1 / 50) * 2 < p_max s2 - p_min s2" by (rule third(1))
  have c2: "select_degree 2 s2 = Inr s2'" by (rule third(2))
  have c3: "gap_of s2' = Some gp" by (rule third(3))
  have c4: "gp < 0" by (rule third(4))
  have c5: "shots_of err (1 / 4) (1 / 50) 50 s2' = 1" by (rule third(5))
  have c6: "\<not> err * (p_max s2' - p_min s2') / \<bar>gp\<bar> \<le> (1 / 4) * (1 / 50)" by (rule third(6))
  have l: "last [init_state, s1, s2] = s2" "length [init_state, s1, s2] = 3" by simp_all
  from chebpe_iteration_draws [OF c2, of clopper_pearson "\<lambda>i. 1 / 2" "9 / 10" "1 / 50" a err "1 / 4" 50]
  obtain s3 where s3: "chebpe_iteration clopper_pearson (\<lambda>i. 1 / 2) (9 / 10) (1 / 50) a err (1 / 4) 2 50 s2 = Inr s3"
    and d3: "draws s3 = draws s2' + shots_of err (1 / 4) (1 / 50) 50 s2'" by blast
  have d3': "draws s3 = 100 + 1" unfolding d3 c5 by (simp add: s2'_def)
  have three: "(3::nat) = Suc (Suc (Suc 0))" by simp
  have w0: "(1 / 50) * 2 < p_max init_state - p_min init_state" by (simp add: init_state_def)
  have w1: "(1 / 50) * 2 < p_max s1 - p_min s1" by (simp add: s1_def)
  have p1: "chebpe_iteration clopper_pearson (\<lambda>i. 1 / 2) (9 / 10) (1 / 50) a err (1 / 4) 2 50 init_state = Inr s1"
    unfolding s1_def by (rule late_run_pass_1 [of clopper_pearson a err, OF cpH err])
  have p2: "chebpe_iteration clopper_pearson (\<lambda>i. 1 / 2) (9 / 10) (1 / 50) a err (1 / 4) 2 50 s1 = Inr s2"
    unfolding s1_def s2_def v_def by (rule late_run_pass_2 [of clopper_pearson a err, OF cpT err]) simp_all
  have "chebpe_trace clopper_pearson (\<lambda>i. 1 / 2) (9 / 10) (1 / 50) a err (1 / 4) 2 50 3 init_state =
      [init_state, s1, s2, s3]"
    unfolding three using w0 w1 c1 by (simp add: p1 p2 s3)
  then have t3: "chebpe_run_trace clopper_pearson (\<lambda>i. 1 / 2) 3 (9 / 10) (1 / 50) (10 * (79 / 100) ^ 50) (1 / 4) 2 50 =
      [init_state, s1, s2, s3]"
    by (simp add: chebpe_run_trace_def budget_1_50 a_def err_def)
  have l3: "last [init_state, s1, s2, s3] = s3" by simp
  show ?thesis
    unfolding t2 t3 l3 e Let_def l c2 sum.case c3 option.case
    using c1 c4 c5 c6 st d3' by blast
qed

end
